theory Spec2Isabelle
  imports Main "HOL-Library.Sublist"
begin

section \<open>Strings as the executor reads them\<close>

text \<open>
  A Python \<open>str\<close> is the list of its code points, as \<open>ord\<close> gives them; \<open>ascii\<close> writes
  one from its ASCII characters. \<open>len\<close> is the length of the list and \<open>py_in p s\<close> is the
  substring test \<open>p in s\<close>.
\<close>

type_synonym str = "int list"

definition ascii :: "string \<Rightarrow> str" where
  "ascii s = map of_char s"

text \<open>
  \<open>str.isspace\<close> of one code point, which is what \<open>str.strip()\<close> removes at both ends:
  U+0009 to U+000D, U+001C to U+0020, U+0085, U+00A0, U+1680, U+2000 to U+200A, U+2028,
  U+2029, U+202F, U+205F and U+3000.
\<close>

definition isspace :: "int \<Rightarrow> bool" where
  "isspace c =
     ((0x09 \<le> c \<and> c \<le> 0x0D) \<or> (0x1C \<le> c \<and> c \<le> 0x20) \<or> c = 0x85 \<or> c = 0xA0 \<or>
      c = 0x1680 \<or> (0x2000 \<le> c \<and> c \<le> 0x200A) \<or> c = 0x2028 \<or> c = 0x2029 \<or>
      c = 0x202F \<or> c = 0x205F \<or> c = 0x3000)"

definition strip :: "str \<Rightarrow> str" where
  "strip s = rev (dropWhile isspace (rev (dropWhile isspace s)))"

text \<open>
  \<open>str.lower\<close> replaces every code point by its lower-case form. The code points whose
  lower-case form holds an ASCII character are the letters A to Z, U+0130 (which becomes
  \<open>i\<close> followed by U+0307) and the Kelvin sign U+212A (which becomes \<open>k\<close>); \<open>lower_char\<close>
  is exact on them and on the rest of ASCII. Every other code point becomes one code
  point outside ASCII, whatever stands around it, and \<open>lower_char\<close> keeps it as it is.
  The phrases that \<open>is_valid_response\<close> looks for in the lower-cased text are ASCII, so
  which code point outside ASCII stands at such a place does not change any of its
  tests (lemma \<open>lower_other_code_points\<close> below).
\<close>

definition lower_char :: "int \<Rightarrow> str" where
  "lower_char c =
     (if 0x41 \<le> c \<and> c \<le> 0x5A then [c + 0x20]
      else if c = 0x130 then [0x69, 0x307]
      else if c = 0x212A then [0x6B]
      else [c])"

definition lower :: "str \<Rightarrow> str" where
  "lower s = concat (map lower_char s)"

text \<open>
  \<open>mask\<close> forgets which code point outside ASCII stands at a place. It is used to compare
  \<open>lower\<close> with any other lower-casing of the code points outside ASCII.
\<close>

definition mask :: "str \<Rightarrow> str" where
  "mask s = map (\<lambda>x. if x < 0x80 then x else 0x80) s"

fun py_in :: "str \<Rightarrow> str \<Rightarrow> bool" where
  "py_in p [] = (p = [])"
| "py_in p (c # cs) = (take (length p) (c # cs) = p \<or> py_in p cs)"

fun join_comma :: "str list \<Rightarrow> str" where
  "join_comma [] = []"
| "join_comma [x] = x"
| "join_comma (x # y # zs) = x @ ascii '','' @ join_comma (y # zs)"

section \<open>config/constants.py\<close>

definition REPETITIVE_PATTERNS :: "str list" where
  "REPETITIVE_PATTERNS =
     map ascii
       [''a proper translation would be'',
        ''should be a statement matching'',
        ''is not appropriate'',
        ''let me check'',
        ''i need to'',
        ''looking at the'']"

definition TOOL_PATTERNS :: "str list" where
  "TOOL_PATTERNS =
     map ascii
       [''calling tool'',
        ''using tool'',
        ''tool call'',
        ''invoke'',
        ''executing'']"

definition TOOL_NAME :: str where
  "TOOL_NAME = ascii ''update_translations_in_memory''"

section \<open>The agent's response\<close>

text \<open>
  A response is the dictionary the agent returns. \<open>NoResponse\<close> is \<open>None\<close>;
  \<open>ResponseDict None\<close> is a dictionary without the key \<open>"messages"\<close> (the empty
  dictionary among them); \<open>ResponseDict (Some ms)\<close> carries the message list. A message
  has the three attributes the executor reads. \<open>tool_calls = None\<close> stands for a message
  without the attribute or with the value \<open>None\<close>. A tool call is a dictionary: \<open>tc_name\<close>
  is \<open>call.get("name")\<close> and \<open>tc_args\<close> is \<open>call.get("args", {})\<close>, its values being
  dictionaries from language code to text, kept as association lists.
\<close>

type_synonym translation_dict = "(str \<times> str) list"

record tool_call =
  tc_name :: "str option"
  tc_args :: "(str \<times> translation_dict) list"

datatype msg_content = ContentNone | ContentStr str | ContentList "str list"

record message =
  tool_calls :: "tool_call list option"
  content :: msg_content
  usage_metadata :: "(str \<times> int) list option"

datatype response = NoResponse | ResponseDict "message list option"

text \<open>Truth value of an optional list: \<open>hasattr(msg, a) and msg.a\<close>.\<close>

definition truthy :: "'a list option \<Rightarrow> bool" where
  "truthy v = (case v of None \<Rightarrow> False | Some xs \<Rightarrow> xs \<noteq> [])"

definition dict_get :: "(str \<times> int) list \<Rightarrow> str \<Rightarrow> int \<Rightarrow> int" where
  "dict_get d k dflt = (case map_of d k of None \<Rightarrow> dflt | Some v \<Rightarrow> v)"

section \<open>core/translation\_executor.py\<close>

text \<open>
  \<open>extract_translations\<close>: the first tool call named \<open>update_translations_in_memory\<close>
  whose arguments hold \<open>"translations"\<close>, over all messages in order. A response that is
  \<open>None\<close> raises inside the \<open>try\<close> and gives \<open>None\<close>.
\<close>

fun first_translations :: "tool_call list \<Rightarrow> translation_dict option" where
  "first_translations [] = None"
| "first_translations (call # calls) =
     (if tc_name call = Some TOOL_NAME then
        (case map_of (tc_args call) (ascii ''translations'') of
           Some t \<Rightarrow> Some t
         | None \<Rightarrow> first_translations calls)
      else first_translations calls)"

fun scan_messages :: "message list \<Rightarrow> translation_dict option" where
  "scan_messages [] = None"
| "scan_messages (msg # msgs) =
     (case tool_calls msg of
        None \<Rightarrow> scan_messages msgs
      | Some calls \<Rightarrow>
          (if calls = [] then scan_messages msgs
           else
             (case first_translations calls of
                Some t \<Rightarrow> Some t
              | None \<Rightarrow> scan_messages msgs)))"

definition extract_translations :: "response \<Rightarrow> translation_dict option" where
  "extract_translations r =
     (case r of
        NoResponse \<Rightarrow> None
      | ResponseDict None \<Rightarrow> None
      | ResponseDict (Some msgs) \<Rightarrow> scan_messages msgs)"

text \<open>
  \<open>extract_token_usage\<close>: the messages are read in reverse; the first one with usage
  metadata gives the pair, \<open>(0, 0)\<close> otherwise.
\<close>

fun last_usage :: "message list \<Rightarrow> int \<times> int" where
  "last_usage [] = (0, 0)"
| "last_usage (msg # msgs) =
     (case usage_metadata msg of
        None \<Rightarrow> last_usage msgs
      | Some usage \<Rightarrow>
          (if usage = [] then last_usage msgs
           else (dict_get usage (ascii ''input_tokens'') 0,
                 dict_get usage (ascii ''output_tokens'') 0)))"

definition extract_token_usage :: "response \<Rightarrow> int \<times> int" where
  "extract_token_usage r =
     (case r of
        NoResponse \<Rightarrow> (0, 0)
      | ResponseDict None \<Rightarrow> (0, 0)
      | ResponseDict (Some msgs) \<Rightarrow> last_usage (rev msgs))"

text \<open>
  \<open>is_valid_response\<close>. Every exception of the body is caught and gives \<open>False\<close>:
  \<open>response["messages"][-1]\<close> on an empty list, and \<open>content.strip()\<close> on a content
  that is a non-empty list of blocks.
\<close>

definition matches_any :: "str list \<Rightarrow> str \<Rightarrow> bool" where
  "matches_any patterns content_lower = list_ex (\<lambda>p. py_in (lower p) content_lower) patterns"

definition is_valid_response :: "response \<Rightarrow> bool" where
  "is_valid_response r =
     (case r of
        NoResponse \<Rightarrow> False
      | ResponseDict None \<Rightarrow> False
      | ResponseDict (Some msgs) \<Rightarrow>
          (if msgs = [] then False
           else
             let last_message = last msgs in
             if truthy (tool_calls last_message) then True
             else
               (case content last_message of
                  ContentNone \<Rightarrow> False
                | ContentList blocks \<Rightarrow> False
                | ContentStr c \<Rightarrow>
                    if c = [] \<or> length (strip c) < 5 then False
                    else if matches_any REPETITIVE_PATTERNS (lower c) then False
                    else if matches_any TOOL_PATTERNS (lower c) then False
                    else True)))"

text \<open>
  The backend call of \<open>execute_async\<close>. The agent is an oracle from the built request to
  what the awaited call does: it times out (\<open>asyncio.TimeoutError\<close>), raises another
  \<open>Exception\<close>, or returns a response. \<open>build_messages\<close> keeps the three values that are
  formatted into the user request.
\<close>

record prompt =
  p_target_langs :: str
  p_context :: str
  p_text :: str

datatype backend_outcome = Timeout | Failure | Reply response

type_synonym agent = "prompt \<Rightarrow> backend_outcome"

type_synonym exec_result = "bool \<times> translation_dict \<times> int \<times> int"

datatype exec_exception = TimeoutError | OtherException

definition build_messages :: "str \<Rightarrow> str \<Rightarrow> str list \<Rightarrow> prompt" where
  "build_messages ko_text ctx target_langs =
     \<lparr>p_target_langs = join_comma target_langs, p_context = ctx, p_text = ko_text\<rparr>"

text \<open>The body of the \<open>try\<close> block of \<open>execute_async\<close>, then its two handlers.\<close>

definition execute_try :: "agent \<Rightarrow> str \<Rightarrow> str \<Rightarrow> str list \<Rightarrow> exec_exception + exec_result" where
  "execute_try ag ko_text ctx target_langs =
     (case ag (build_messages ko_text ctx target_langs) of
        Timeout \<Rightarrow> Inl TimeoutError
      | Failure \<Rightarrow> Inl OtherException
      | Reply r \<Rightarrow>
          (let (input_t, output_t) = extract_token_usage r in
           if \<not> is_valid_response r then Inr (False, [], input_t, output_t)
           else
             (case extract_translations r of
                None \<Rightarrow> Inr (False, [], input_t, output_t)
              | Some t \<Rightarrow>
                  if t = [] then Inr (False, [], input_t, output_t)
                  else Inr (True, t, input_t, output_t))))"

definition execute_async :: "agent \<Rightarrow> str \<Rightarrow> str \<Rightarrow> str list \<Rightarrow> exec_result" where
  "execute_async ag ko_text ctx target_langs =
     (case execute_try ag ko_text ctx target_langs of
        Inl TimeoutError \<Rightarrow> (False, [], 0, 0)
      | Inl OtherException \<Rightarrow> (False, [], 0, 0)
      | Inr res \<Rightarrow> res)"

text \<open>
  \<open>execute_sync\<close> runs \<open>execute_async\<close> on an event loop of its own and returns its result;
  its own handler gives the same \<open>(False, {}, 0, 0)\<close>.
\<close>

definition execute_sync :: "agent \<Rightarrow> str \<Rightarrow> str \<Rightarrow> str list \<Rightarrow> exec_result" where
  "execute_sync ag ko_text ctx target_langs = execute_async ag ko_text ctx target_langs"

section \<open>The request and the pipeline stages\<close>

text \<open>
  Modelled from the spec: \<open>core/translation_request.py\<close> is not among the sources. The
  fields and the initial values are those of the spec's data model (section 3) and of
  \<open>tests/test_example.py\<close>: a fresh request has \<open>success = False\<close> and
  \<open>attempt_count = 0\<close>. \<open>rcontext\<close> is the field \<open>context\<close> and \<open>translated\<close> the field
  \<open>translations\<close>.
\<close>

record request =
  index :: int
  ko_text :: str
  rcontext :: str
  target_langs :: "str list"
  success :: bool
  translated :: translation_dict
  error :: "str option"
  attempt_count :: nat
  input_tokens :: int
  output_tokens :: int

text \<open>
  Modelled from the spec: the constructor \<open>TranslationRequest(index, ko_text, context,
  target_langs)\<close>, absent from the sources, with the initial outcome fields the tests read.
\<close>

definition new_request :: "int \<Rightarrow> str \<Rightarrow> str \<Rightarrow> str list \<Rightarrow> request" where
  "new_request i txt c langs =
     \<lparr>index = i, ko_text = txt, rcontext = c, target_langs = langs, success = False,
      translated = [], error = None, attempt_count = 0, input_tokens = 0, output_tokens = 0\<rparr>"

text \<open>
  Modelled from the spec: \<open>TranslationRequest.is_valid\<close>, absent from the sources. Section
  4.1: validation fails if the source text is empty or whitespace-only or the target
  languages are empty.
\<close>

definition is_valid :: "request \<Rightarrow> bool" where
  "is_valid r = (strip (ko_text r) \<noteq> [] \<and> target_langs r \<noteq> [])"

text \<open>
  Modelled from the spec: \<open>mark_success\<close>, absent from the sources; the success transition
  sets the translations, and the tests read \<open>error\<close> as \<open>None\<close> after it.
\<close>

definition mark_success :: "translation_dict \<Rightarrow> request \<Rightarrow> request" where
  "mark_success t r = r\<lparr>success := True, translated := t, error := None\<rparr>"

text \<open>
  Modelled from the spec: \<open>mark_failure\<close>, absent from the sources; the failure transition
  sets the error.
\<close>

definition mark_failure :: "str \<Rightarrow> request \<Rightarrow> request" where
  "mark_failure msg r = r\<lparr>success := False, error := Some msg\<rparr>"

text \<open>
  Modelled from the spec: \<open>increment_attempt\<close>, absent from the sources; the tests count
  one per call.
\<close>

definition increment_attempt :: "request \<Rightarrow> request" where
  "increment_attempt r = r\<lparr>attempt_count := attempt_count r + 1\<rparr>"

text \<open>
  Modelled from the spec: the validation stage (\<open>handlers/validation_handler.py\<close>, absent
  from the sources). Section 4.1: on failure it marks the request failed with a
  descriptive error and stops the chain. The boolean says whether the chain continues.
\<close>

definition validation_stage :: "request \<Rightarrow> bool \<times> request" where
  "validation_stage r =
     (if is_valid r then (True, r)
      else (False,
            mark_failure (ascii ''Invalid request: empty text or no target languages'') r))"

text \<open>
  Modelled from the spec: the execution stage (\<open>handlers/execution_handler.py\<close>, absent
  from the sources). Section 4.2: up to \<open>maxAttempts\<close> calls of the executor; each
  attempt increments the attempt count and adds the token counts the executor returned,
  also when the attempt failed; the attempts stop at the first success; a failed
  attempt marks the request failed. \<open>ags k\<close> is what the backend does on attempt \<open>k\<close>.
  The second component lists what the executor returned, one entry per backend call.
\<close>

fun execution_attempts :: "nat \<Rightarrow> (nat \<Rightarrow> agent) \<Rightarrow> nat \<Rightarrow> request \<Rightarrow> request \<times> exec_result list" where
  "execution_attempts 0 ags k r = (r, [])"
| "execution_attempts (Suc n) ags k r =
     (let r1 = increment_attempt r;
          res = execute_sync (ags k) (ko_text r1) (rcontext r1) (target_langs r1);
          r2 = r1\<lparr>input_tokens := input_tokens r1 + fst (snd (snd res)),
                  output_tokens := output_tokens r1 + snd (snd (snd res))\<rparr>
      in if fst res then (mark_success (fst (snd res)) r2, [res])
         else
           (case execution_attempts n ags (Suc k)
                   (mark_failure (ascii ''Translation attempt failed'') r2) of
              (r3, calls) \<Rightarrow> (r3, res # calls)))"

text \<open>
  Modelled from the spec: \<open>pipeline.handle\<close>, the chain built by
  \<open>builders/pipeline_builder.py\<close> from handlers that are absent from the sources. The
  persistence and logging stages leave the request's outcome as it is (sections 4.3 and
  4.4), so the projection that \<open>process_request\<close> reads is the one after execution.
\<close>

definition pipeline_handle :: "int \<Rightarrow> (nat \<Rightarrow> agent) \<Rightarrow> request \<Rightarrow> request \<times> exec_result list" where
  "pipeline_handle max_attempts ags r =
     (case validation_stage r of
        (False, r') \<Rightarrow> (r', [])
      | (True, r') \<Rightarrow> execution_attempts (nat max_attempts) ags 0 r')"

section \<open>main.py: the orchestrator\<close>

text \<open>
  The state of a \<open>TranslationOrchestrator\<close>: the two token totals and the shutdown
  event. Three logs make its effects visible: \<open>saved\<close> holds one entry
  \<open>(a_index, total_input_tokens, total_output_tokens)\<close> per call of \<open>save_progress\<close>,
  \<open>printed\<close> one entry per completed \<open>_print_statistics\<close>, and \<open>executor_calls\<close> what the
  executor returned on each backend call made inside \<open>pipeline.handle\<close>. \<open>clock\<close> counts
  the reads of the shutdown event: it is the logical time the environment is indexed by.
\<close>

record statistics =
  st_total :: int
  st_initial_success :: int
  st_retry_success :: int
  st_total_success :: int
  st_final_failed :: int
  st_input_tokens :: int
  st_output_tokens :: int

record orchestrator =
  total_input_tokens :: int
  total_output_tokens :: int
  shutdown_event :: bool
  clock :: nat
  saved :: "(int \<times> int \<times> int) list"
  printed :: "statistics list"
  executor_calls :: "exec_result list"

datatype sched_exception = KeyboardInterrupt | FuturesTimeout | IndexError | ZeroDivisionError

text \<open>
  The collaborators and the outside world. \<open>get_text\<close>, \<open>get_context\<close> and
  \<open>lang_codes_list\<close> are the subtitle manager and the settings, whose reads are taken
  to return. \<open>handle t r\<close> is
  \<open>pipeline.handle(r)\<close> called at time \<open>t\<close>: \<open>None\<close> when it raises, otherwise the
  resulting request with the executor results of the backend calls it made.
  \<open>shutdown_at = Some k\<close> says that some other thread sets the shutdown event at time
  \<open>k\<close>; the event is never cleared. \<open>async_exception t\<close> is an exception raised in the
  scheduler thread while it is in the batch loop at time \<open>t\<close>: \<open>KeyboardInterrupt\<close>, or
  the \<open>TimeoutError\<close> of \<open>as_completed\<close>. An exception raised in the scheduler thread
  after the batch loop (an interrupt during the retry, a failing \<open>save_all\<close>) has no
  counterpart here: what is proved of a whole run is proved of the runs without one.
\<close>

record env =
  get_text :: "int \<Rightarrow> str"
  get_context :: "int \<Rightarrow> str"
  lang_codes_list :: "str list"
  handle :: "nat \<Rightarrow> request \<Rightarrow> (request \<times> exec_result list) option"
  shutdown_at :: "nat option"
  async_exception :: "nat \<Rightarrow> sched_exception option"

text \<open>
  \<open>self._shutdown_event.is_set()\<close>: the state after the read; the value read is
  \<open>shutdown_event\<close> of the result.
\<close>

definition read_flag :: "env \<Rightarrow> orchestrator \<Rightarrow> orchestrator" where
  "read_flag e s =
     s\<lparr>shutdown_event :=
          shutdown_event s \<or> (case shutdown_at e of None \<Rightarrow> False | Some k \<Rightarrow> k \<le> clock s),
       clock := Suc (clock s)\<rparr>"

definition save_progress :: "int \<Rightarrow> orchestrator \<Rightarrow> orchestrator" where
  "save_progress i s = s\<lparr>saved := saved s @ [(i, total_input_tokens s, total_output_tokens s)]\<rparr>"


text \<open>
  \<open>process_request\<close>. What a worker hands to its future: the returned boolean, or an
  exception raised by the pipeline, which \<open>process_request\<close> does not catch.
\<close>

datatype worker_outcome = Returned bool | Raised

definition process_request :: "env \<Rightarrow> orchestrator \<Rightarrow> int \<Rightarrow> worker_outcome \<times> orchestrator" where
  "process_request e s idx =
     (let s1 = read_flag e s in
      if shutdown_event s1 then (Returned False, s1)
      else
        (case handle e (clock s1)
                (new_request idx (get_text e idx) (get_context e idx) (lang_codes_list e)) of
           None \<Rightarrow> (Raised, s1)
         | Some (result, calls) \<Rightarrow>
             (let s2 = s1\<lparr>executor_calls := executor_calls s1 @ calls\<rparr> in
              (Returned (success result),
               if input_tokens result > 0 \<or> output_tokens result > 0
               then s2\<lparr>total_input_tokens := total_input_tokens s2 + input_tokens result,
                       total_output_tokens := total_output_tokens s2 + output_tokens result\<rparr>
               else s2))))"

section \<open>main.py: the batch scheduler\<close>

text \<open>
  The scheduler's local variables of \<open>run_batch_translation\<close>, with the orchestrator.
\<close>

record scheduler =
  orch :: orchestrator
  processed_count :: nat
  success_count :: nat
  failed_indices :: "int list"

text \<open>
  The workers of one batch. The pool is read sequentially: every submitted index runs
  \<open>process_request\<close>, in submission order, and its future holds the outcome. Leaving the
  \<open>with\<close> block waits for all of them, so the whole batch runs whatever the collecting
  loop does.
\<close>

fun run_workers :: "env \<Rightarrow> int list \<Rightarrow> orchestrator \<Rightarrow> (int \<times> worker_outcome) list \<times> orchestrator" where
  "run_workers e [] s = ([], s)"
| "run_workers e (idx # rest) s =
     (case process_request e s idx of
        (out, s1) \<Rightarrow>
          (case run_workers e rest s1 of
             (outs, s2) \<Rightarrow> ((idx, out) # outs, s2)))"

text \<open>
  The loop over \<open>as_completed\<close>. Waiting for the next future may raise; then the shutdown
  event is read and the loop is left if it is set; otherwise the result is taken:
  \<open>True\<close> counts a success, \<open>False\<close> and both \<open>except\<close> branches append the index to
  \<open>failed_indices\<close>.
\<close>

fun collect_results :: "env \<Rightarrow> (int \<times> worker_outcome) list \<Rightarrow> scheduler \<Rightarrow> scheduler \<times> sched_exception option" where
  "collect_results e [] sc = (sc, None)"
| "collect_results e ((idx, out) # rest) sc =
     (case async_exception e (clock (orch sc)) of
        Some x \<Rightarrow> (sc, Some x)
      | None \<Rightarrow>
          (let s1 = read_flag e (orch sc) in
           if shutdown_event s1 then (sc\<lparr>orch := s1\<rparr>, None)
           else
             collect_results e rest
               ((case out of
                   Returned True \<Rightarrow> sc\<lparr>success_count := success_count sc + 1\<rparr>
                 | Returned False \<Rightarrow> sc\<lparr>failed_indices := failed_indices sc @ [idx]\<rparr>
                 | Raised \<Rightarrow> sc\<lparr>failed_indices := failed_indices sc @ [idx]\<rparr>)
                \<lparr>orch := s1, processed_count := processed_count sc + 1\<rparr>)))"

text \<open>
  \<open>list(range(current_index, min(current_index + batch_size, total_subs + 1)))\<close>.
\<close>

definition make_batch :: "int \<Rightarrow> int \<Rightarrow> int \<Rightarrow> int list" where
  "make_batch current_index batch_size total_subs =
     [current_index .. min (current_index + batch_size) (total_subs + 1) - 1]"

text \<open>
  One batch after its list is built: submit, collect, and the periodic save, which
  writes \<open>current_index + batch_size\<close> (passed as \<open>next_index\<close>) when the processed count
  is a multiple of the save interval.
\<close>

definition run_batch :: "env \<Rightarrow> int \<Rightarrow> int \<Rightarrow> int list \<Rightarrow> scheduler \<Rightarrow> scheduler \<times> sched_exception option" where
  "run_batch e save_interval next_index batch sc =
     (case run_workers e batch (orch sc) of
        (outs, s2) \<Rightarrow>
          (case collect_results e outs (sc\<lparr>orch := s2\<rparr>) of
             (sc2, Some x) \<Rightarrow> (sc2, Some x)
           | (sc2, None) \<Rightarrow>
               if save_interval = 0 then (sc2, Some ZeroDivisionError)
               else if int (processed_count sc2) mod save_interval = 0
               then (sc2\<lparr>orch := save_progress next_index (orch sc2)\<rparr>, None)
               else (sc2, None)))"

text \<open>
  The \<open>while\<close> loop. An empty batch makes \<open>batch[0]\<close> in the log line raise
  \<open>IndexError\<close>; this is what a batch size below 1 does.
\<close>

function batch_loop :: "env \<Rightarrow> int \<Rightarrow> int \<Rightarrow> int \<Rightarrow> int \<Rightarrow> scheduler \<Rightarrow> scheduler \<times> sched_exception option" where
  "batch_loop e total_subs batch_size save_interval current_index sc =
     (if current_index \<le> total_subs then
        (case async_exception e (clock (orch sc)) of
           Some x \<Rightarrow> (sc, Some x)
         | None \<Rightarrow>
             if shutdown_event (read_flag e (orch sc))
             then (sc\<lparr>orch := read_flag e (orch sc)\<rparr>, None)
             else if make_batch current_index batch_size total_subs = []
             then (sc\<lparr>orch := read_flag e (orch sc)\<rparr>, Some IndexError)
             else
               (case run_batch e save_interval (current_index + batch_size)
                       (make_batch current_index batch_size total_subs)
                       (sc\<lparr>orch := read_flag e (orch sc)\<rparr>) of
                  (sc', Some x) \<Rightarrow> (sc', Some x)
                | (sc', None) \<Rightarrow>
                    batch_loop e total_subs batch_size save_interval
                      (current_index + batch_size) sc'))
      else (sc, None))"
  by pat_completeness auto
termination
  by (relation "measure (\<lambda>(e, total_subs, batch_size, save_interval, current_index, sc).
          nat (total_subs + 1 - current_index))")
     (auto simp: make_batch_def)

section \<open>main.py: the retry rounds\<close>

text \<open>
  One round of \<open>_retry_failed_items\<close> over \<open>current_failed\<close>. \<open>remaining\<close> and
  \<open>retry_success\<close> are the variables of the source; \<open>succeeded\<close> lists the indices
  counted in \<open>retry_success\<close> during this round.
\<close>

fun retry_pass :: "env \<Rightarrow> int list \<Rightarrow> int list \<Rightarrow> int list \<Rightarrow> nat \<Rightarrow> orchestrator \<Rightarrow> int list \<times> int list \<times> nat \<times> orchestrator" where
  "retry_pass e [] remaining succeeded retry_success s = (remaining, succeeded, retry_success, s)"
| "retry_pass e (idx # rest) remaining succeeded retry_success s =
     (let s0 = read_flag e s in
      if shutdown_event s0 then (remaining, succeeded, retry_success, s0)
      else
        (case process_request e s0 idx of
           (Returned True, s1) \<Rightarrow>
             retry_pass e rest remaining (succeeded @ [idx]) (retry_success + 1) s1
         | (Returned False, s1) \<Rightarrow>
             retry_pass e rest (remaining @ [idx]) succeeded retry_success s1
         | (Raised, s1) \<Rightarrow>
             retry_pass e rest (remaining @ [idx]) succeeded retry_success s1))"

text \<open>
  The rounds: \<open>for retry_round in range(max_retries)\<close>, left when nothing remains or the
  shutdown event is set. The last component records each executed round.
\<close>

record retry_round =
  current_failed :: "int list"
  round_succeeded :: "int list"
  remaining_after :: "int list"

fun retry_rounds :: "env \<Rightarrow> nat \<Rightarrow> int list \<Rightarrow> nat \<Rightarrow> orchestrator \<Rightarrow> int list \<times> nat \<times> orchestrator \<times> retry_round list" where
  "retry_rounds e 0 remaining retry_success s = (remaining, retry_success, s, [])"
| "retry_rounds e (Suc n) remaining retry_success s =
     (if remaining = [] then (remaining, retry_success, s, [])
      else
        (let s0 = read_flag e s in
         if shutdown_event s0 then (remaining, retry_success, s0, [])
         else
           (case retry_pass e remaining [] [] retry_success s0 of
              (remaining', succeeded, retry_success', s1) \<Rightarrow>
                (case retry_rounds e n remaining' retry_success' s1 of
                   (final, rs, s2, rounds) \<Rightarrow>
                     (final, rs, s2,
                      \<lparr>current_failed = remaining, round_succeeded = succeeded,
                       remaining_after = remaining'\<rparr> # rounds)))))"

definition retry_failed_items :: "env \<Rightarrow> int list \<Rightarrow> int \<Rightarrow> orchestrator \<Rightarrow> nat \<times> orchestrator" where
  "retry_failed_items e failed max_retries s =
     (case retry_rounds e (nat max_retries) failed 0 s of
        (final, rs, s', rounds) \<Rightarrow> (rs, s'))"

definition DEFAULT_RETRY_ROUNDS :: int where
  "DEFAULT_RETRY_ROUNDS = 2"

section \<open>main.py: the whole run\<close>



text \<open>
  The orchestrator as \<open>__init__\<close> leaves it: both totals zero, the event clear, nothing
  saved or printed yet.
\<close>

definition new_orchestrator :: orchestrator where
  "new_orchestrator =
     \<lparr>total_input_tokens = 0, total_output_tokens = 0, shutdown_event = False,
      clock = 0, saved = [], printed = [], executor_calls = []\<rparr>"

section \<open>The orchestrator over the modelled pipeline\<close>

text \<open>
  Modelled from the spec: the pipeline that \<open>__init__\<close> builds is made of handlers that
  are absent from the sources. \<open>with_pipeline\<close> is the environment in which
  \<open>pipeline.handle\<close> is \<open>pipeline_handle\<close>; \<open>backend t k\<close> is what the backend does on
  attempt \<open>k\<close> of the call made at time \<open>t\<close>. Errors of an item are captured in the
  request, as section 7 says, so this \<open>handle\<close> never raises.
\<close>

definition with_pipeline :: "int \<Rightarrow> (nat \<Rightarrow> nat \<Rightarrow> agent) \<Rightarrow> env \<Rightarrow> env" where
  "with_pipeline max_attempts backend e =
     e\<lparr>handle := (\<lambda>t r. Some (pipeline_handle max_attempts (backend t) r))\<rparr>"






section \<open>Concrete inputs\<close>

text \<open>
  Responses, backends and environments on which the theorems below are evaluated.
  \<open>annyeong\<close> is the Korean text of the code points U+C548 U+B155, and \<open>done_text\<close> the
  answer that the system message asks for after the tool call (U+BC88 U+C5ED, a space,
  U+C644 U+B8CC). \<open>tool_reply\<close> follows the format of the system message: the tool call
  holds the source language \<open>ko\<close> next to the requested \<open>en\<close>. Its message text also
  holds a rejection phrase and a tool-chatter phrase.
\<close>

definition annyeong :: str where
  "annyeong = [0xC548, 0xB155]"

definition done_text :: str where
  "done_text = [0xBC88, 0xC5ED, 0x20, 0xC644, 0xB8CC]"

definition example_call :: tool_call where
  "example_call =
     \<lparr>tc_name = Some TOOL_NAME,
      tc_args = [(ascii ''translations'', [(ascii ''ko'', annyeong), (ascii ''en'', ascii ''Hello'')])]\<rparr>"

definition chatty_tool_message :: message where
  "chatty_tool_message =
     \<lparr>tool_calls = Some [example_call], content = ContentStr (ascii ''Let me check the tool call''),
      usage_metadata = Some [(ascii ''input_tokens'', 12), (ascii ''output_tokens'', 7)]\<rparr>"

definition plain_message :: "str \<Rightarrow> message" where
  "plain_message c = \<lparr>tool_calls = None, content = ContentStr c, usage_metadata = None\<rparr>"

definition tool_reply :: response where
  "tool_reply = ResponseDict (Some [chatty_tool_message])"

text \<open>A reply without tool call whose text holds a rejection phrase, with usage metadata.\<close>

definition blank_reply :: response where
  "blank_reply =
     ResponseDict (Some [\<lparr>tool_calls = None, content = ContentStr (ascii ''I need to think''),
       usage_metadata = Some [(ascii ''input_tokens'', 7), (ascii ''output_tokens'', 3)]\<rparr>])"

text \<open>The agent that does the same on every request.\<close>

definition always :: "backend_outcome \<Rightarrow> agent" where
  "always b p = b"

text \<open>
  Backends: one that times out, then answers with chatter, then with the tool call; one
  that only times out or raises; one that raises throughout the call made at time 2.
\<close>

definition flaky_backend :: "nat \<Rightarrow> nat \<Rightarrow> agent" where
  "flaky_backend t k =
     (if k = 0 then always Timeout
      else if k = 1 then always (Reply blank_reply)
      else always (Reply tool_reply))"



text \<open>Two results of \<open>pipeline.handle\<close>: one attempt that succeeds, one that fails.\<close>

definition ok_result :: "request \<Rightarrow> (request \<times> exec_result list) option" where
  "ok_result r =
     Some (mark_success [(ascii ''en'', ascii ''Hello'')] (increment_attempt r)
             \<lparr>input_tokens := 10, output_tokens := 5\<rparr>,
           [(True, [(ascii ''en'', ascii ''Hello'')], 10, 5)])"

definition failing_result :: "request \<Rightarrow> (request \<times> exec_result list) option" where
  "failing_result r =
     Some (mark_failure (ascii ''Translation attempt failed'') (increment_attempt r),
           [(False, [], 0, 0)])"

text \<open>
  Environments: \<open>quiet_env\<close> succeeds on every index and is never disturbed; in
  \<open>retry_env\<close> index 2 always fails and index 3 fails before time 6; the others set the
  shutdown event at time 1 or 4, or deliver \<open>KeyboardInterrupt\<close> at time 4.
\<close>

definition quiet_env :: env where
  "quiet_env =
     \<lparr>get_text = (\<lambda>i. annyeong), get_context = (\<lambda>i. []), lang_codes_list = [ascii ''en''],
      handle = (\<lambda>t r. ok_result r), shutdown_at = None, async_exception = (\<lambda>t. None)\<rparr>"

definition retry_env :: env where
  "retry_env =
     quiet_env\<lparr>handle := (\<lambda>t r. if index r = 2 \<or> (index r = 3 \<and> t < 6) then failing_result r
                                 else ok_result r)\<rparr>"







text \<open>The scheduler's variables as \<open>run_batch_translation\<close> initialises them.\<close>

definition start_sched :: "orchestrator \<Rightarrow> scheduler" where
  "start_sched s = \<lparr>orch = s, processed_count = 0, success_count = 0, failed_indices = []\<rparr>"

section \<open>The substring test and the phrase filters\<close>

lemma py_in_iff: "py_in p s \<longleftrightarrow> (\<exists>a b. s = a @ p @ b)"
proof (induction s)
  case Nil
  then show ?case by auto
next
  case (Cons c cs)
  show ?case
  proof
    assume "py_in p (c # cs)"
    then consider "take (length p) (c # cs) = p" | "py_in p cs" by auto
    then show "\<exists>a b. c # cs = a @ p @ b"
    proof cases
      case 1
      then have "c # cs = [] @ p @ drop (length p) (c # cs)"
        by (metis append_Nil append_take_drop_id)
      then show ?thesis by blast
    next
      case 2
      then obtain a b where "cs = a @ p @ b" using Cons.IH by blast
      then have "c # cs = (c # a) @ p @ b" by simp
      then show ?thesis by blast
    qed
  next
    assume "\<exists>a b. c # cs = a @ p @ b"
    then obtain a b where ab: "c # cs = a @ p @ b" by blast
    show "py_in p (c # cs)"
    proof (cases a)
      case Nil
      then have "take (length p) (c # cs) = p" using ab by simp
      then show ?thesis by simp
    next
      case (Cons x a')
      then have "cs = a' @ p @ b" using ab by simp
      then have "py_in p cs" using Cons.IH by blast
      then show ?thesis by simp
    qed
  qed
qed

lemma matches_any_iff:
  "matches_any ps s \<longleftrightarrow> (\<exists>p \<in> set ps. \<exists>a b. s = a @ lower p @ b)"
  by (simp add: matches_any_def list_ex_iff py_in_iff)

lemma strip_Nil: "strip [] = []"
  by (simp add: strip_def)

lemma strip_trimmed:
  assumes "list_all isspace pre" and "list_all isspace post" and "mid \<noteq> []"
    and "\<not> isspace (hd mid)" and "\<not> isspace (last mid)"
  shows "strip (pre @ mid @ post) = mid"
proof -
  have "dropWhile isspace (pre @ mid @ post) = dropWhile isspace (mid @ post)"
    using assms(1) by (intro dropWhile_append2) (simp add: list_all_iff)
  also have "\<dots> = mid @ post"
    using assms(3,4) by (cases mid) simp_all
  finally have a: "dropWhile isspace (pre @ mid @ post) = mid @ post" .
  have "dropWhile isspace (rev post @ rev mid) = dropWhile isspace (rev mid)"
    using assms(2) by (intro dropWhile_append2) (simp add: list_all_iff)
  also have "\<dots> = rev mid"
    using assms(3,5) by (cases "rev mid") (simp_all add: hd_rev [symmetric])
  finally have b: "dropWhile isspace (rev (mid @ post)) = rev mid" by simp
  show ?thesis by (simp only: strip_def a b rev_rev_ident)
qed

lemma takeWhile_all: "list_all P (takeWhile P xs)"
  by (induction xs) simp_all

lemma strip_decomposition:
  "\<exists>pre post. c = pre @ strip c @ post \<and> list_all isspace pre \<and> list_all isspace post \<and>
     (strip c \<noteq> [] \<longrightarrow> \<not> isspace (hd (strip c)) \<and> \<not> isspace (last (strip c)))"
proof -
  let ?d = "dropWhile isspace c"
  let ?pre = "takeWhile isspace c"
  let ?post = "rev (takeWhile isspace (rev ?d))"
  have c: "c = ?pre @ ?d" by simp
  have "rev (dropWhile isspace (rev ?d)) @ rev (takeWhile isspace (rev ?d)) =
          rev (takeWhile isspace (rev ?d) @ dropWhile isspace (rev ?d))"
    by (simp only: rev_append)
  also have "\<dots> = rev (rev ?d)" by (simp only: takeWhile_dropWhile_id)
  finally have d: "?d = strip c @ ?post" by (simp add: strip_def)
  have p1: "list_all isspace ?pre" by (rule takeWhile_all)
  have p2: "list_all isspace ?post" using takeWhile_all [of isspace "rev ?d"] by simp
  have e: "strip c \<noteq> [] \<longrightarrow> \<not> isspace (hd (strip c)) \<and> \<not> isspace (last (strip c))"
  proof
    assume ne: "strip c \<noteq> []"
    have "?d \<noteq> []"
    proof
      assume "?d = []"
      with d have "strip c @ ?post = []" by (simp only:)
      with ne show False by simp
    qed
    then have h1: "\<not> isspace (hd ?d)" by (rule hd_dropWhile)
    have h2: "hd ?d = hd (strip c)" using d ne by (metis hd_append2)
    have "dropWhile isspace (rev ?d) \<noteq> []" using ne by (simp add: strip_def)
    then have h3: "\<not> isspace (hd (dropWhile isspace (rev ?d)))" by (rule hd_dropWhile)
    have h4: "last (strip c) = hd (dropWhile isspace (rev ?d))"
      by (simp add: strip_def last_rev)
    from h1 h2 h3 h4 show "\<not> isspace (hd (strip c)) \<and> \<not> isspace (last (strip c))" by simp
  qed
  have "c = ?pre @ strip c @ ?post" using c d by simp
  with p1 p2 e show ?thesis by blast
qed

text \<open>
  Trimming characterised without \<open>strip\<close>: a text is not empty and keeps at least 5 code
  points after trimming exactly when it is white space, then at least 5 code points that
  begin and end with a code point that is not white space, then white space.
\<close>

lemma valid_text_iff:
  "(c \<noteq> [] \<and> 5 \<le> length (strip c)) \<longleftrightarrow>
     (\<exists>pre mid post. c = pre @ mid @ post \<and> list_all isspace pre \<and> list_all isspace post \<and>
        \<not> isspace (hd mid) \<and> \<not> isspace (last mid) \<and> 5 \<le> length mid)"
proof
  assume a: "c \<noteq> [] \<and> 5 \<le> length (strip c)"
  then have ne: "strip c \<noteq> []" by auto
  from strip_decomposition [of c] obtain pre post where
    "c = pre @ strip c @ post" "list_all isspace pre" "list_all isspace post"
    "strip c \<noteq> [] \<longrightarrow> \<not> isspace (hd (strip c)) \<and> \<not> isspace (last (strip c))"
    by blast
  with a ne show "\<exists>pre mid post. c = pre @ mid @ post \<and> list_all isspace pre \<and> list_all isspace post \<and>
        \<not> isspace (hd mid) \<and> \<not> isspace (last mid) \<and> 5 \<le> length mid"
    by blast
next
  assume "\<exists>pre mid post. c = pre @ mid @ post \<and> list_all isspace pre \<and> list_all isspace post \<and>
        \<not> isspace (hd mid) \<and> \<not> isspace (last mid) \<and> 5 \<le> length mid"
  then obtain pre mid post where h: "c = pre @ mid @ post" "list_all isspace pre"
    "list_all isspace post" "\<not> isspace (hd mid)" "\<not> isspace (last mid)" "5 \<le> length mid"
    by blast
  then have ne: "mid \<noteq> []" by auto
  have "strip c = mid" unfolding h(1) using h(2,3) ne h(4,5) by (rule strip_trimmed)
  with h(1,6) ne show "c \<noteq> [] \<and> 5 \<le> length (strip c)" by simp
qed

lemma is_valid_response_text:
  "msgs \<noteq> [] \<Longrightarrow> tool_calls (last msgs) = None \<or> tool_calls (last msgs) = Some [] \<Longrightarrow>
   content (last msgs) = ContentStr c \<Longrightarrow>
     is_valid_response (ResponseDict (Some msgs)) \<longleftrightarrow>
       c \<noteq> [] \<and> 5 \<le> length (strip c) \<and>
       \<not> (\<exists>p \<in> set (REPETITIVE_PATTERNS @ TOOL_PATTERNS). \<exists>a b. lower c = a @ lower p @ b)"
  by (auto simp: is_valid_response_def Let_def truthy_def matches_any_iff)

text \<open>
  Whatever code points outside ASCII stand at the places where \<open>lower\<close> keeps a code
  point outside ASCII, the test for an ASCII phrase gives the same result.
\<close>

lemma mask_ascii: "\<forall>x \<in> set p. x < 0x80 \<Longrightarrow> mask p = p"
  by (simp add: mask_def map_idI)

lemma mask_eq_ascii:
  assumes "mask q = p" and "\<forall>x \<in> set p. x < 0x80"
  shows "q = p"
proof -
  have "\<forall>x \<in> set q. x < 0x80"
  proof
    fix x assume "x \<in> set q"
    then have "(if x < 0x80 then x else 0x80) \<in> set (mask q)" by (simp add: mask_def)
    then have "(if x < 0x80 then x else 0x80) < 0x80" using assms by simp
    then show "x < 0x80" by (cases "x < 0x80") simp_all
  qed
  then have "mask q = q" by (rule mask_ascii)
  with assms(1) show ?thesis by simp
qed

lemma py_in_mask:
  assumes "\<forall>x \<in> set p. x < 0x80"
  shows "py_in p (mask t) = py_in p t"
proof
  let ?f = "\<lambda>x::int. if x < 0x80 then x else 0x80"
  assume "py_in p (mask t)"
  then obtain a b where "map ?f t = a @ (p @ b)"
    unfolding py_in_iff mask_def by blast
  then have "\<exists>us vs. t = us @ vs \<and> a = map ?f us \<and> p @ b = map ?f vs"
    by (simp only: map_eq_append_conv)
  then obtain ta t2 where t: "t = ta @ t2" and "p @ b = map ?f t2" by blast
  then have "\<exists>us vs. t2 = us @ vs \<and> p = map ?f us \<and> b = map ?f vs"
    by (simp only: append_eq_map_conv)
  then obtain tq tb where t2: "t2 = tq @ tb" and "p = map ?f tq" by blast
  then have "mask tq = p" by (simp add: mask_def)
  then have "tq = p" using assms by (rule mask_eq_ascii)
  with t t2 have "t = ta @ p @ tb" by simp
  then show "py_in p t" unfolding py_in_iff by blast
next
  assume "py_in p t"
  then obtain a b where "t = a @ p @ b" unfolding py_in_iff by blast
  then have "mask t = mask a @ mask p @ mask b" by (simp add: mask_def)
  then have "mask t = mask a @ p @ mask b" using mask_ascii [OF assms] by simp
  then show "py_in p (mask t)" unfolding py_in_iff by blast
qed

lemma lower_other_code_points:
  assumes "list_all2 (\<lambda>c img. if c < 0x80 \<or> c = 0x130 \<or> c = 0x212A then img = lower_char c
                              else \<exists>d. img = [d] \<and> 0x80 \<le> d) s imgs"
    and "\<forall>x \<in> set p. x < 0x80"
  shows "py_in p (concat imgs) = py_in p (lower s)"
proof -
  have "mask (concat imgs) = mask (lower s)"
    using assms(1)
  proof (induction rule: list_all2_induct)
    case Nil
    then show ?case by (simp add: lower_def)
  next
    case (Cons c s img imgs)
    have "mask img = mask (lower_char c)"
      using Cons.hyps(1) by (auto simp: mask_def lower_char_def split: if_splits)
    then show ?case using Cons.IH by (simp add: lower_def mask_def)
  qed
  then show ?thesis using py_in_mask [OF assms(2), of "concat imgs"] py_in_mask [OF assms(2), of "lower s"]
    by simp
qed

lemma plain_valid:
  "is_valid_response (ResponseDict (Some [plain_message (ascii ''Bonjour le monde'')]))"
  by code_simp

section \<open>Response validation\<close>

text \<open>
  Claim C9. For every response whose last message carries a non-empty \<open>tool_calls\<close>
  attribute, \<open>is_valid_response\<close> returns \<open>True\<close> at once: neither the minimum length
  nor the two phrase filters are applied, so the answer is the same whatever the content
  of that message is, a content holding a rejection or tool-chatter phrase included.
\<close>

theorem tool_calls_bypass_filters:
  "msgs \<noteq> [] \<Longrightarrow> tool_calls (last msgs) = Some calls \<Longrightarrow> calls \<noteq> [] \<Longrightarrow>
     is_valid_response (ResponseDict (Some msgs)) \<and>
     (\<forall>c. is_valid_response (ResponseDict (Some (butlast msgs @ [(last msgs)\<lparr>content := c\<rparr>]))))"
  by (simp add: is_valid_response_def truthy_def)

text \<open>
  The message of the witness holds both a rejection phrase and a tool-chatter phrase; it
  is valid with its tool call and invalid once the tool call is taken away.
\<close>

theorem tool_calls_bypass_filters_witness:
  "is_valid_response (ResponseDict (Some [chatty_tool_message])) \<and>
   matches_any REPETITIVE_PATTERNS (lower (ascii ''Let me check the tool call'')) \<and>
   matches_any TOOL_PATTERNS (lower (ascii ''Let me check the tool call'')) \<and>
   \<not> is_valid_response (ResponseDict (Some [chatty_tool_message\<lparr>tool_calls := None\<rparr>]))"
proof -
  have a: "[chatty_tool_message] \<noteq> []" by simp
  have b: "tool_calls (last [chatty_tool_message]) = Some [example_call]"
    by (simp add: chatty_tool_message_def)
  have c: "[example_call] \<noteq> []" by simp
  have m1: "matches_any REPETITIVE_PATTERNS (lower (ascii ''Let me check the tool call''))"
    by code_simp
  have m2: "matches_any TOOL_PATTERNS (lower (ascii ''Let me check the tool call''))"
    by code_simp
  have d: "\<not> is_valid_response (ResponseDict (Some [chatty_tool_message\<lparr>tool_calls := None\<rparr>]))"
    by code_simp
  from tool_calls_bypass_filters [OF a b c] m1 m2 d show ?thesis by blast
qed

text \<open>
  Claim C2. A response is judged valid if and only if it has a last message (it is not
  empty, holds \<open>"messages"\<close>, and the list is not empty) and either (a) that message
  carries a non-empty list of tool calls, or (b) its content is a text that, between
  leading and trailing white space, keeps at least 5 code points, and whose lower-cased
  form contains the lower-cased form of none of the rejection phrases and of none of the
  tool-chatter phrases. In branch (b), which is where the filters stand, any match in
  either set makes the response invalid.
\<close>

theorem is_valid_response_iff:
  "(is_valid_response r \<longleftrightarrow>
      (\<exists>msgs. r = ResponseDict (Some msgs) \<and> msgs \<noteq> [] \<and>
         ((\<exists>calls. tool_calls (last msgs) = Some calls \<and> calls \<noteq> []) \<or>
          (\<exists>c pre mid post. content (last msgs) = ContentStr c \<and>
               c = pre @ mid @ post \<and> list_all isspace pre \<and> list_all isspace post \<and>
               \<not> isspace (hd mid) \<and> \<not> isspace (last mid) \<and> 5 \<le> length mid \<and>
               \<not> (\<exists>p \<in> set (REPETITIVE_PATTERNS @ TOOL_PATTERNS).
                      \<exists>a b. lower c = a @ lower p @ b))))) \<and>
   (\<forall>msgs c p. r = ResponseDict (Some msgs) \<and> msgs \<noteq> [] \<and>
        \<not> (\<exists>calls. tool_calls (last msgs) = Some calls \<and> calls \<noteq> []) \<and>
        content (last msgs) = ContentStr c \<and> p \<in> set (REPETITIVE_PATTERNS @ TOOL_PATTERNS) \<and>
        py_in (lower p) (lower c) \<longrightarrow> \<not> is_valid_response r)"
proof (intro conjI)
  show "is_valid_response r \<longleftrightarrow>
      (\<exists>msgs. r = ResponseDict (Some msgs) \<and> msgs \<noteq> [] \<and>
         ((\<exists>calls. tool_calls (last msgs) = Some calls \<and> calls \<noteq> []) \<or>
          (\<exists>c pre mid post. content (last msgs) = ContentStr c \<and>
               c = pre @ mid @ post \<and> list_all isspace pre \<and> list_all isspace post \<and>
               \<not> isspace (hd mid) \<and> \<not> isspace (last mid) \<and> 5 \<le> length mid \<and>
               \<not> (\<exists>p \<in> set (REPETITIVE_PATTERNS @ TOOL_PATTERNS).
                      \<exists>a b. lower c = a @ lower p @ b))))"
    (is "_ \<longleftrightarrow> ?R")
  proof (cases r)
    case NoResponse
    then show ?thesis by (simp add: is_valid_response_def)
  next
    case (ResponseDict mo)
    show ?thesis
    proof (cases mo)
      case None
      with ResponseDict show ?thesis by (simp add: is_valid_response_def)
    next
      case (Some msgs)
      note r = ResponseDict Some
      show ?thesis
      proof (cases "msgs = []")
        case True
        with r show ?thesis by (simp add: is_valid_response_def)
      next
        case ne: False
        show ?thesis
        proof (cases "\<exists>calls. tool_calls (last msgs) = Some calls \<and> calls \<noteq> []")
          case True
          then have "is_valid_response r"
            using r ne by (auto simp: is_valid_response_def Let_def truthy_def)
          moreover have ?R using True r ne by blast
          ultimately show ?thesis by blast
        next
          case nt: False
          then have tc: "tool_calls (last msgs) = None \<or> tool_calls (last msgs) = Some []"
            by (cases "tool_calls (last msgs)") auto
          show ?thesis
          proof (cases "content (last msgs)")
            case ContentNone
            with r ne nt show ?thesis
              by (auto simp: is_valid_response_def Let_def truthy_def split: option.splits)
          next
            case (ContentList bs)
            with r ne nt show ?thesis
              by (auto simp: is_valid_response_def Let_def truthy_def split: option.splits)
          next
            case (ContentStr c)
            have "is_valid_response r \<longleftrightarrow>
                    (c \<noteq> [] \<and> 5 \<le> length (strip c)) \<and>
                    \<not> (\<exists>p \<in> set (REPETITIVE_PATTERNS @ TOOL_PATTERNS). \<exists>a b. lower c = a @ lower p @ b)"
              using is_valid_response_text [OF ne tc ContentStr] r by simp
            also have "\<dots> \<longleftrightarrow>
                (\<exists>pre mid post. c = pre @ mid @ post \<and> list_all isspace pre \<and> list_all isspace post \<and>
                    \<not> isspace (hd mid) \<and> \<not> isspace (last mid) \<and> 5 \<le> length mid) \<and>
                \<not> (\<exists>p \<in> set (REPETITIVE_PATTERNS @ TOOL_PATTERNS). \<exists>a b. lower c = a @ lower p @ b)"
              by (simp only: valid_text_iff)
            also have "\<dots> \<longleftrightarrow> ?R"
            proof
              assume "(\<exists>pre mid post. c = pre @ mid @ post \<and> list_all isspace pre \<and> list_all isspace post \<and>
                    \<not> isspace (hd mid) \<and> \<not> isspace (last mid) \<and> 5 \<le> length mid) \<and>
                \<not> (\<exists>p \<in> set (REPETITIVE_PATTERNS @ TOOL_PATTERNS). \<exists>a b. lower c = a @ lower p @ b)"
              then have "\<exists>c pre mid post. content (last msgs) = ContentStr c \<and>
                   c = pre @ mid @ post \<and> list_all isspace pre \<and> list_all isspace post \<and>
                   \<not> isspace (hd mid) \<and> \<not> isspace (last mid) \<and> 5 \<le> length mid \<and>
                   \<not> (\<exists>p \<in> set (REPETITIVE_PATTERNS @ TOOL_PATTERNS).
                          \<exists>a b. lower c = a @ lower p @ b)"
                using ContentStr by blast
              with r ne show ?R by blast
            next
              assume ?R
              then obtain msgs' where m: "r = ResponseDict (Some msgs')"
                and d: "(\<exists>calls. tool_calls (last msgs') = Some calls \<and> calls \<noteq> []) \<or>
                  (\<exists>c pre mid post. content (last msgs') = ContentStr c \<and>
                     c = pre @ mid @ post \<and> list_all isspace pre \<and> list_all isspace post \<and>
                     \<not> isspace (hd mid) \<and> \<not> isspace (last mid) \<and> 5 \<le> length mid \<and>
                     \<not> (\<exists>p \<in> set (REPETITIVE_PATTERNS @ TOOL_PATTERNS).
                            \<exists>a b. lower c = a @ lower p @ b))"
                by blast
              from m r have "msgs' = msgs" by simp
              with d nt obtain c' pre mid post where c': "content (last msgs) = ContentStr c'"
                "c' = pre @ mid @ post" "list_all isspace pre" "list_all isspace post"
                "\<not> isspace (hd mid)" "\<not> isspace (last mid)" "5 \<le> length mid"
                "\<not> (\<exists>p \<in> set (REPETITIVE_PATTERNS @ TOOL_PATTERNS). \<exists>a b. lower c' = a @ lower p @ b)"
                by blast
              from c'(1) ContentStr have "c' = c" by simp
              with c' show "(\<exists>pre mid post. c = pre @ mid @ post \<and> list_all isspace pre \<and> list_all isspace post \<and>
                    \<not> isspace (hd mid) \<and> \<not> isspace (last mid) \<and> 5 \<le> length mid) \<and>
                \<not> (\<exists>p \<in> set (REPETITIVE_PATTERNS @ TOOL_PATTERNS). \<exists>a b. lower c = a @ lower p @ b)"
                by blast
            qed
            finally show ?thesis .
          qed
        qed
      qed
    qed
  qed
next
  show "\<forall>msgs c p. r = ResponseDict (Some msgs) \<and> msgs \<noteq> [] \<and>
        \<not> (\<exists>calls. tool_calls (last msgs) = Some calls \<and> calls \<noteq> []) \<and>
        content (last msgs) = ContentStr c \<and> p \<in> set (REPETITIVE_PATTERNS @ TOOL_PATTERNS) \<and>
        py_in (lower p) (lower c) \<longrightarrow> \<not> is_valid_response r"
  proof (intro allI impI)
    fix msgs c p
    assume h: "r = ResponseDict (Some msgs) \<and> msgs \<noteq> [] \<and>
        \<not> (\<exists>calls. tool_calls (last msgs) = Some calls \<and> calls \<noteq> []) \<and>
        content (last msgs) = ContentStr c \<and> p \<in> set (REPETITIVE_PATTERNS @ TOOL_PATTERNS) \<and>
        py_in (lower p) (lower c)"
    then have tc: "tool_calls (last msgs) = None \<or> tool_calls (last msgs) = Some []"
      by (cases "tool_calls (last msgs)") auto
    from h have "\<exists>p \<in> set (REPETITIVE_PATTERNS @ TOOL_PATTERNS). \<exists>a b. lower c = a @ lower p @ b"
      unfolding py_in_iff by blast
    then show "\<not> is_valid_response r"
      using is_valid_response_text [of msgs c] h tc by blast
  qed
qed

text \<open>
  The inputs of the witness: the Korean answer between two spaces and a no-break space; a
  rejection phrase in mixed case; a text of 4 code points between white space that
  includes U+00A0 and U+3000; a text of exactly 5 code points; a rejection phrase written
  with the Kelvin sign; a tool-chatter phrase in mixed case; a message with a tool call
  and the same message with an empty list of tool calls; responses without a last
  message.
\<close>

theorem is_valid_response_iff_witness:
  "is_valid_response (ResponseDict (Some [plain_message (ascii ''  '' @ done_text @ [0xA0])])) \<and>
   \<not> is_valid_response (ResponseDict (Some [plain_message (ascii ''I Need To think about it'')])) \<and>
   \<not> is_valid_response (ResponseDict (Some [plain_message (ascii '' abcd '' @ [0xA0, 0x3000])])) \<and>
   is_valid_response (ResponseDict (Some [plain_message (ascii ''abcde'')])) \<and>
   \<not> is_valid_response
       (ResponseDict (Some [plain_message (ascii ''LOO'' @ [0x212A] @ ascii ''ING AT THE sky'')])) \<and>
   \<not> is_valid_response (ResponseDict (Some [plain_message (ascii ''Now Executing the plan'')])) \<and>
   is_valid_response tool_reply \<and>
   \<not> is_valid_response (ResponseDict (Some [chatty_tool_message\<lparr>tool_calls := Some []\<rparr>])) \<and>
   \<not> is_valid_response NoResponse \<and>
   \<not> is_valid_response (ResponseDict None) \<and>
   \<not> is_valid_response (ResponseDict (Some []))"
proof -
  let ?c = "ascii ''  '' @ done_text @ [0xA0]"
  let ?good = "ResponseDict (Some [plain_message ?c])"
  let ?d = "ascii ''I Need To think about it''"
  let ?bad = "ResponseDict (Some [plain_message ?d])"
  have nm: "\<not> matches_any (REPETITIVE_PATTERNS @ TOOL_PATTERNS) (lower ?c)" by code_simp
  have sp: "list_all isspace (ascii ''  '')" "list_all isspace [0xA0]"
    "\<not> isspace (hd done_text)" "\<not> isspace (last done_text)" "5 \<le> length done_text"
    by code_simp+
  have "content (last [plain_message ?c]) = ContentStr ?c \<and>
        ?c = ascii ''  '' @ done_text @ [0xA0] \<and> list_all isspace (ascii ''  '') \<and>
        list_all isspace [0xA0] \<and> \<not> isspace (hd done_text) \<and> \<not> isspace (last done_text) \<and>
        5 \<le> length done_text \<and>
        \<not> (\<exists>p \<in> set (REPETITIVE_PATTERNS @ TOOL_PATTERNS). \<exists>a b. lower ?c = a @ lower p @ b)"
    using nm sp by (simp add: plain_message_def matches_any_iff)
  then have "\<exists>msgs. ?good = ResponseDict (Some msgs) \<and> msgs \<noteq> [] \<and>
         ((\<exists>calls. tool_calls (last msgs) = Some calls \<and> calls \<noteq> []) \<or>
          (\<exists>c pre mid post. content (last msgs) = ContentStr c \<and>
               c = pre @ mid @ post \<and> list_all isspace pre \<and> list_all isspace post \<and>
               \<not> isspace (hd mid) \<and> \<not> isspace (last mid) \<and> 5 \<le> length mid \<and>
               \<not> (\<exists>p \<in> set (REPETITIVE_PATTERNS @ TOOL_PATTERNS).
                      \<exists>a b. lower c = a @ lower p @ b)))"
    by blast
  then have good: "is_valid_response ?good"
    using is_valid_response_iff [of ?good] by blast
  have "py_in (lower (ascii ''i need to'')) (lower ?d)" by code_simp
  then have "?bad = ResponseDict (Some [plain_message ?d]) \<and> [plain_message ?d] \<noteq> [] \<and>
      \<not> (\<exists>calls. tool_calls (last [plain_message ?d]) = Some calls \<and> calls \<noteq> []) \<and>
      content (last [plain_message ?d]) = ContentStr ?d \<and>
      ascii ''i need to'' \<in> set (REPETITIVE_PATTERNS @ TOOL_PATTERNS) \<and>
      py_in (lower (ascii ''i need to'')) (lower ?d)"
    by (simp add: plain_message_def REPETITIVE_PATTERNS_def)
  then have bad: "\<not> is_valid_response ?bad"
    using is_valid_response_iff [of ?bad] by blast
  have e1: "\<not> is_valid_response (ResponseDict (Some [plain_message (ascii '' abcd '' @ [0xA0, 0x3000])]))"
    by code_simp
  have e2: "is_valid_response (ResponseDict (Some [plain_message (ascii ''abcde'')]))"
    by code_simp
  have e3: "\<not> is_valid_response
       (ResponseDict (Some [plain_message (ascii ''LOO'' @ [0x212A] @ ascii ''ING AT THE sky'')]))"
    by code_simp
  have e4: "\<not> is_valid_response (ResponseDict (Some [plain_message (ascii ''Now Executing the plan'')]))"
    by code_simp
  have e5: "is_valid_response tool_reply" by code_simp
  have e6: "\<not> is_valid_response (ResponseDict (Some [chatty_tool_message\<lparr>tool_calls := Some []\<rparr>]))"
    by code_simp
  have e7: "\<not> is_valid_response NoResponse" "\<not> is_valid_response (ResponseDict None)"
    "\<not> is_valid_response (ResponseDict (Some []))"
    by (simp_all add: is_valid_response_def)
  from good bad e1 e2 e3 e4 e5 e6 e7 show ?thesis by blast
qed

section \<open>The executor's result\<close>

lemma execute_async_True:
  "execute_async ag t c langs = (True, tr, i, outp) \<Longrightarrow>
     tr \<noteq> [] \<and> (\<exists>r. ag (build_messages t c langs) = Reply r \<and> is_valid_response r \<and>
                   extract_translations r = Some tr)"
  by (auto simp: execute_async_def execute_try_def split: backend_outcome.splits prod.splits
      if_splits option.splits)

lemma execute_async_nothing:
  "ag (build_messages t c langs) = Reply r \<Longrightarrow> is_valid_response r \<Longrightarrow>
   extract_translations r = None \<or> extract_translations r = Some [] \<Longrightarrow>
     \<not> fst (execute_async ag t c langs)"
  by (auto simp: execute_async_def execute_try_def split: prod.splits)

lemma ko_not_en: "ascii ''ko'' \<noteq> ascii ''en''"
  by (simp add: ascii_def)

lemma tool_run:
  "execute_async (always (Reply tool_reply)) annyeong [] [ascii ''en''] =
     (True, [(ascii ''ko'', annyeong), (ascii ''en'', ascii ''Hello'')], 12, 7)"
  by code_simp

text \<open>
  Claim C3, as the code has it. Whenever \<open>execute_async\<close> returns success, the returned
  mapping is not empty and is the one \<open>extract_translations\<close> found in a valid response;
  and when a valid response yields no mapping, or an empty one, the execution returns
  failure. The keys of the mapping are those the backend wrote: nothing compares them
  with the target languages.
\<close>

theorem execute_success_translations:
  "(execute_async ag t c langs = (True, tr, i, outp) \<longrightarrow>
      tr \<noteq> [] \<and> (\<exists>r. ag (build_messages t c langs) = Reply r \<and> is_valid_response r \<and>
                   extract_translations r = Some tr)) \<and>
   (ag (build_messages t c langs) = Reply r' \<and> is_valid_response r' \<and>
      (extract_translations r' = None \<or> extract_translations r' = Some []) \<longrightarrow>
      \<not> fst (execute_async ag t c langs))"
  using execute_async_True execute_async_nothing by blast

theorem execute_success_translations_witness:
  "execute_async (always (Reply tool_reply)) annyeong [] [ascii ''en''] =
     (True, [(ascii ''ko'', annyeong), (ascii ''en'', ascii ''Hello'')], 12, 7) \<and>
   [(ascii ''ko'', annyeong), (ascii ''en'', ascii ''Hello'')] \<noteq> ([] :: translation_dict) \<and>
   extract_translations tool_reply = Some [(ascii ''ko'', annyeong), (ascii ''en'', ascii ''Hello'')] \<and>
   \<not> fst (execute_async (always (Reply (ResponseDict (Some [plain_message (ascii ''Bonjour le monde'')]))))
            annyeong [] [ascii ''en''])"
proof -
  let ?plain = "ResponseDict (Some [plain_message (ascii ''Bonjour le monde'')])"
  have x: "extract_translations ?plain = None"
    by (simp add: extract_translations_def plain_message_def)
  have a: "always (Reply ?plain) (build_messages annyeong [] [ascii ''en'']) = Reply ?plain"
    by (simp add: always_def)
  have "\<not> fst (execute_async (always (Reply ?plain)) annyeong [] [ascii ''en''])"
    using execute_success_translations [of "always (Reply ?plain)" "annyeong" "[]" "[ascii ''en'']"
        _ _ _ ?plain] plain_valid x a
    by blast
  moreover have "extract_translations tool_reply = Some [(ascii ''ko'', annyeong), (ascii ''en'', ascii ''Hello'')]"
    by (simp add: tool_reply_def chatty_tool_message_def example_call_def
        extract_translations_def TOOL_NAME_def)
  ultimately show ?thesis using tool_run by simp
qed

text \<open>
  The claim as stated fails: asked for \<open>en\<close> only, the executor returns success with a
  mapping that also holds the key \<open>ko\<close>, as the system message tells the backend to
  write it.
\<close>

theorem keys_outside_target_langs:
  "fst (execute_async (always (Reply tool_reply)) annyeong [] [ascii ''en'']) \<and>
   \<not> set (map fst (fst (snd (execute_async (always (Reply tool_reply)) annyeong []
          [ascii ''en''])))) \<subseteq> set [ascii ''en'']"
  by (simp add: tool_run ko_not_en)

section \<open>Workers and the shutdown event\<close>





lemma run_workers_Cons:
  "run_workers e (idx # rest) s =
     ((idx, fst (process_request e s idx)) #
        fst (run_workers e rest (snd (process_request e s idx))),
      snd (run_workers e rest (snd (process_request e s idx))))"
  by (simp split: prod.splits)

declare run_workers.simps(2) [simp del]



lemma run_workers_indices: "map fst (fst (run_workers e batch s)) = batch"
  by (induction batch arbitrary: s) (simp_all add: run_workers_Cons)


lemma run_batch_counts:
  "run_batch e si nxt batch sc = (sc', x) \<Longrightarrow>
     \<exists>sc2. failed_indices sc' = failed_indices sc2 \<and> success_count sc' = success_count sc2 \<and>
           processed_count sc' = processed_count sc2 \<and>
           sc2 = fst (collect_results e (fst (run_workers e batch (orch sc)))
                        (sc\<lparr>orch := snd (run_workers e batch (orch sc))\<rparr>))"
  by (auto simp: run_batch_def split: prod.splits option.splits if_splits)



section \<open>The batch loop\<close>

declare batch_loop.simps [simp del]

subsection \<open>What the state components keep\<close>

lemma read_flag_fields [simp]:
  "saved (read_flag e s) = saved s"
  "printed (read_flag e s) = printed s"
  "total_input_tokens (read_flag e s) = total_input_tokens s"
  "total_output_tokens (read_flag e s) = total_output_tokens s"
  "executor_calls (read_flag e s) = executor_calls s"
  "clock (read_flag e s) = Suc (clock s)"
  by (simp_all add: read_flag_def)

lemma saved_process_request [simp]: "saved (snd (process_request e s idx)) = saved s"
  by (simp add: process_request_def Let_def split: option.splits prod.splits)

lemma saved_run_workers [simp]: "saved (snd (run_workers e batch s)) = saved s"
  by (induction batch arbitrary: s) (simp_all add: run_workers_Cons)

lemma saved_collect_results [simp]:
  "saved (orch (fst (collect_results e outs sc))) = saved (orch sc)"
  by (induction e outs sc rule: collect_results.induct)
     (simp_all add: Let_def split: option.splits worker_outcome.splits bool.splits)

subsection \<open>The periodic checkpoint\<close>

lemma run_batch_saved:
  "saved (orch (fst (run_batch e si nxt batch sc))) =
     (if snd (run_batch e si nxt batch sc) = None \<and>
         int (processed_count (fst (run_batch e si nxt batch sc))) mod si = 0
      then saved (orch sc) @
             [(nxt, total_input_tokens (orch (fst (run_batch e si nxt batch sc))),
               total_output_tokens (orch (fst (run_batch e si nxt batch sc))))]
      else saved (orch sc))"
proof -
  obtain outs s2 where w: "run_workers e batch (orch sc) = (outs, s2)"
    by (cases "run_workers e batch (orch sc)")
  obtain sc2 x where c: "collect_results e outs (sc\<lparr>orch := s2\<rparr>) = (sc2, x)"
    by (cases "collect_results e outs (sc\<lparr>orch := s2\<rparr>)")
  have s2: "saved s2 = saved (orch sc)"
    using saved_run_workers [of e batch "orch sc"] w by simp
  have "saved (orch sc2) = saved s2"
    using saved_collect_results [of e outs "sc\<lparr>orch := s2\<rparr>"] c by simp
  with s2 have "saved (orch sc2) = saved (orch sc)" by simp
  then show ?thesis
    by (cases x) (simp_all add: run_batch_def w c save_progress_def)
qed

lemma batch_loop_saved:
  "\<exists>new. saved (orch (fst (batch_loop e total_subs bs si cur sc))) = saved (orch sc) @ new \<and>
         (\<forall>en \<in> set new. \<exists>k::nat. fst en = cur + int k * bs + bs \<and> cur + int k * bs \<le> total_subs)"
proof (induction e total_subs bs si cur sc rule: batch_loop.induct)
  case (1 e total_subs bs si cur sc)
  let ?sc0 = "sc\<lparr>orch := read_flag e (orch sc)\<rparr>"
  let ?rb = "run_batch e si (cur + bs) (make_batch cur bs total_subs) ?sc0"
  show ?case
  proof (cases "cur \<le> total_subs \<and> async_exception e (clock (orch sc)) = None \<and>
                \<not> shutdown_event (read_flag e (orch sc)) \<and> make_batch cur bs total_subs \<noteq> []")
    case False
    then have "saved (orch (fst (batch_loop e total_subs bs si cur sc))) = saved (orch sc)"
      by (subst batch_loop.simps) (auto split: option.splits)
    then show ?thesis by simp
  next
    case True
    obtain sc' x where rb: "?rb = (sc', x)" by (cases ?rb)
    have step: "\<exists>new0. saved (orch sc') = saved (orch sc) @ new0 \<and>
                  (\<forall>en \<in> set new0. fst en = cur + bs)"
      using run_batch_saved [of e si "cur + bs" "make_batch cur bs total_subs" ?sc0] rb
      by (auto split: if_splits)
    then obtain new0 where new0: "saved (orch sc') = saved (orch sc) @ new0"
      "\<forall>en \<in> set new0. fst en = cur + bs" by blast
    show ?thesis
    proof (cases x)
      case (Some ex)
      then have "fst (batch_loop e total_subs bs si cur sc) = sc'"
        using True rb by (subst batch_loop.simps) simp
      moreover have "\<forall>en \<in> set new0. \<exists>k::nat. fst en = cur + int k * bs + bs \<and> cur + int k * bs \<le> total_subs"
      proof
        fix en assume "en \<in> set new0"
        then have "fst en = cur + int 0 * bs + bs \<and> cur + int 0 * bs \<le> total_subs"
          using new0(2) True by simp
        then show "\<exists>k::nat. fst en = cur + int k * bs + bs \<and> cur + int k * bs \<le> total_subs"
          by blast
      qed
      ultimately show ?thesis using new0(1) by auto
    next
      case None
      then have eq: "batch_loop e total_subs bs si cur sc = batch_loop e total_subs bs si (cur + bs) sc'"
        using True rb by (subst batch_loop.simps) simp
      have "\<exists>new. saved (orch (fst (batch_loop e total_subs bs si (cur + bs) sc'))) = saved (orch sc') @ new \<and>
         (\<forall>en \<in> set new. \<exists>k::nat. fst en = (cur + bs) + int k * bs + bs \<and> (cur + bs) + int k * bs \<le> total_subs)"
        using "1.IH" [of sc' x] True rb None by simp
      then obtain new1 where new1:
        "saved (orch (fst (batch_loop e total_subs bs si (cur + bs) sc'))) = saved (orch sc') @ new1"
        "\<forall>en \<in> set new1. \<exists>k::nat. fst en = (cur + bs) + int k * bs + bs \<and> (cur + bs) + int k * bs \<le> total_subs"
        by blast
      have "\<forall>en \<in> set (new0 @ new1). \<exists>k::nat. fst en = cur + int k * bs + bs \<and> cur + int k * bs \<le> total_subs"
      proof
        fix en assume "en \<in> set (new0 @ new1)"
        then consider "en \<in> set new0" | "en \<in> set new1" by auto
        then show "\<exists>k::nat. fst en = cur + int k * bs + bs \<and> cur + int k * bs \<le> total_subs"
        proof cases
          case 1
          then have "fst en = cur + int 0 * bs + bs \<and> cur + int 0 * bs \<le> total_subs"
            using new0(2) True by simp
          then show ?thesis by blast
        next
          case 2
          then obtain k :: nat where "fst en = (cur + bs) + int k * bs + bs \<and> (cur + bs) + int k * bs \<le> total_subs"
            using new1(2) by blast
          then have "fst en = cur + int (Suc k) * bs + bs \<and> cur + int (Suc k) * bs \<le> total_subs"
            by (simp add: algebra_simps)
          then show ?thesis by blast
        qed
      qed
      moreover have "saved (orch (fst (batch_loop e total_subs bs si cur sc))) = saved (orch sc) @ (new0 @ new1)"
        using eq new0(1) new1(1) by simp
      ultimately show ?thesis by blast
    qed
  qed
qed

subsection \<open>Runs that no exception leaves\<close>

lemma collect_results_no_exception:
  "\<forall>t. async_exception e t = None \<Longrightarrow> snd (collect_results e outs sc) = None"
  by (induction e outs sc rule: collect_results.induct) (simp_all add: Let_def)

lemma run_batch_no_exception:
  "\<forall>t. async_exception e t = None \<Longrightarrow> si \<noteq> 0 \<Longrightarrow> snd (run_batch e si nxt batch sc) = None"
proof -
  assume a: "\<forall>t. async_exception e t = None" and si: "si \<noteq> 0"
  obtain outs s2 where w: "run_workers e batch (orch sc) = (outs, s2)"
    by (cases "run_workers e batch (orch sc)")
  obtain sc2 x where c: "collect_results e outs (sc\<lparr>orch := s2\<rparr>) = (sc2, x)"
    by (cases "collect_results e outs (sc\<lparr>orch := s2\<rparr>)")
  have "x = None"
    using collect_results_no_exception [OF a, of outs "sc\<lparr>orch := s2\<rparr>"] c by simp
  then show ?thesis using si by (simp add: run_batch_def w c)
qed






subsection \<open>Runs that an exception ends, and runs over no subtitle\<close>

lemma printed_process_request [simp]: "printed (snd (process_request e s idx)) = printed s"
  by (simp add: process_request_def Let_def split: option.splits prod.splits)








subsection \<open>Collecting a batch while the event stays clear\<close>






section \<open>The retry rounds\<close>

subsection \<open>One retry round\<close>

lemma subseq_set: "subseq xs ys \<Longrightarrow> set xs \<subseteq> set ys"
  by (auto simp: subseq_conv_nths dest: set_nths_subset [THEN subsetD])

lemma subseq_keeps_distinct: "subseq xs ys \<Longrightarrow> distinct ys \<Longrightarrow> distinct xs"
  by (auto simp: subseq_conv_nths)

lemma retry_pass_shape:
  "retry_pass e cur remaining succeeded rs s = (remaining', succeeded', rs', s') \<Longrightarrow>
     \<exists>ra sa. remaining' = remaining @ ra \<and> succeeded' = succeeded @ sa \<and>
             subseq ra cur \<and> subseq sa cur \<and> rs' = rs + length sa \<and>
             (distinct cur \<longrightarrow> set ra \<inter> set sa = {})"
proof (induction cur arbitrary: remaining succeeded rs s)
  case Nil
  then show ?case by simp
next
  case (Cons idx rest)
  let ?s0 = "read_flag e s"
  show ?case
  proof (cases "shutdown_event ?s0")
    case True
    with Cons.prems show ?thesis by (simp add: Let_def)
  next
    case False
    obtain out s1 where p: "process_request e ?s0 idx = (out, s1)"
      by (cases "process_request e ?s0 idx")
    show ?thesis
    proof (cases "out = Returned True")
      case True
      then have "retry_pass e rest remaining (succeeded @ [idx]) (rs + 1) s1 =
                   (remaining', succeeded', rs', s')"
        using Cons.prems False p by (simp add: Let_def)
      from Cons.IH [OF this] obtain ra sa where IH:
        "remaining' = remaining @ ra" "succeeded' = (succeeded @ [idx]) @ sa"
        "subseq ra rest" "subseq sa rest" "rs' = rs + 1 + length sa"
        "distinct rest \<longrightarrow> set ra \<inter> set sa = {}" by blast
      have "set ra \<subseteq> set rest" using IH(3) by (rule subseq_set)
      then have d: "distinct (idx # rest) \<longrightarrow> set ra \<inter> set (idx # sa) = {}"
        using IH(6) by auto
      have "subseq ra (idx # rest)"
        using subseq_drop_many [OF IH(3), of "[idx]"] by simp
      then have "remaining' = remaining @ ra \<and> succeeded' = succeeded @ (idx # sa) \<and>
            subseq ra (idx # rest) \<and> subseq (idx # sa) (idx # rest) \<and>
            rs' = rs + length (idx # sa) \<and>
            (distinct (idx # rest) \<longrightarrow> set ra \<inter> set (idx # sa) = {})"
        using IH d by simp
      then show ?thesis by blast
    next
      case nt: False
      then have "retry_pass e rest (remaining @ [idx]) succeeded rs s1 =
                   (remaining', succeeded', rs', s')"
        using Cons.prems False p
        by (cases out) (auto simp: Let_def split: bool.splits)
      from Cons.IH [OF this] obtain ra sa where IH:
        "remaining' = (remaining @ [idx]) @ ra" "succeeded' = succeeded @ sa"
        "subseq ra rest" "subseq sa rest" "rs' = rs + length sa"
        "distinct rest \<longrightarrow> set ra \<inter> set sa = {}" by blast
      have "set sa \<subseteq> set rest" using IH(4) by (rule subseq_set)
      then have d: "distinct (idx # rest) \<longrightarrow> set (idx # ra) \<inter> set sa = {}"
        using IH(6) by auto
      have "subseq sa (idx # rest)"
        using subseq_drop_many [OF IH(4), of "[idx]"] by simp
      then have "remaining' = remaining @ (idx # ra) \<and> succeeded' = succeeded @ sa \<and>
            subseq (idx # ra) (idx # rest) \<and> subseq sa (idx # rest) \<and>
            rs' = rs + length sa \<and>
            (distinct (idx # rest) \<longrightarrow> set (idx # ra) \<inter> set sa = {})"
        using IH d by simp
      then show ?thesis by blast
    qed
  qed
qed

subsection \<open>The rounds\<close>

lemma retry_rounds_cases:
  assumes "retry_rounds e n R rs s = (final, rs', s', rounds)"
  obtains (stop) "rounds = []" "final = R"
  | (round) m R' succ rs1 s1 rounds' where "n = Suc m" "R \<noteq> []"
      "retry_pass e R [] [] rs (read_flag e s) = (R', succ, rs1, s1)"
      "retry_rounds e m R' rs1 s1 = (final, rs', s', rounds')"
      "rounds = \<lparr>current_failed = R, round_succeeded = succ, remaining_after = R'\<rparr> # rounds'"
proof (cases n)
  case 0
  with assms stop show ?thesis by simp
next
  case (Suc m)
  show ?thesis
  proof (cases "R = [] \<or> shutdown_event (read_flag e s)")
    case True
    with assms Suc have "rounds = [] \<and> final = R"
      by (auto simp: Let_def split: if_splits)
    with stop show ?thesis by blast
  next
    case False
    obtain R' succ rs1 s1 where p: "retry_pass e R [] [] rs (read_flag e s) = (R', succ, rs1, s1)"
      by (cases "retry_pass e R [] [] rs (read_flag e s)")
    obtain f r2 s2 rounds' where q: "retry_rounds e m R' rs1 s1 = (f, r2, s2, rounds')"
      by (cases "retry_rounds e m R' rs1 s1")
    from assms Suc False p q have
      "final = f" "rs' = r2" "s' = s2"
      "rounds = \<lparr>current_failed = R, round_succeeded = succ, remaining_after = R'\<rparr> # rounds'"
      by (simp_all add: Let_def)
    with Suc False p q round show ?thesis by blast
  qed
qed

lemma retry_rounds_history:
  "retry_rounds e n R rs s = (final, rs', s', rounds) \<Longrightarrow>
     length rounds \<le> n \<and>
     final = (if rounds = [] then R else remaining_after (last rounds)) \<and>
     (\<forall>k < length rounds.
        current_failed (rounds ! k) = (if k = 0 then R else remaining_after (rounds ! (k - 1))) \<and>
        subseq (remaining_after (rounds ! k)) (current_failed (rounds ! k)) \<and>
        subseq (round_succeeded (rounds ! k)) (current_failed (rounds ! k))) \<and>
     set final \<subseteq> set R \<and>
     (\<forall>r \<in> set rounds. set (current_failed r) \<subseteq> set R \<and> set (remaining_after r) \<subseteq> set R)"
proof (induction n arbitrary: R rs s rounds)
  case 0
  then show ?case by simp
next
  case (Suc n)
  from Suc.prems show ?case
  proof (cases rule: retry_rounds_cases)
    case stop
    then show ?thesis by simp
  next
    case (round m R' succ rs1 s1 rounds')
    then have m: "m = n" by simp
    from retry_pass_shape [OF round(3)] have sh: "subseq R' R" "subseq succ R" by auto
    then have sub: "set R' \<subseteq> set R" by (simp add: subseq_set)
    from Suc.IH [OF round(4) [unfolded m]] have IH:
      "length rounds' \<le> n"
      "final = (if rounds' = [] then R' else remaining_after (last rounds'))"
      "\<forall>k < length rounds'.
        current_failed (rounds' ! k) = (if k = 0 then R' else remaining_after (rounds' ! (k - 1))) \<and>
        subseq (remaining_after (rounds' ! k)) (current_failed (rounds' ! k)) \<and>
        subseq (round_succeeded (rounds' ! k)) (current_failed (rounds' ! k))"
      "set final \<subseteq> set R'"
      "\<forall>r \<in> set rounds'. set (current_failed r) \<subseteq> set R' \<and> set (remaining_after r) \<subseteq> set R'"
      by blast+
    have a: "length rounds \<le> Suc n" using IH(1) round(5) by simp
    have b: "final = (if rounds = [] then R else remaining_after (last rounds))"
      using IH(2) round(5) by simp
    have c: "\<forall>k < length rounds.
        current_failed (rounds ! k) = (if k = 0 then R else remaining_after (rounds ! (k - 1))) \<and>
        subseq (remaining_after (rounds ! k)) (current_failed (rounds ! k)) \<and>
        subseq (round_succeeded (rounds ! k)) (current_failed (rounds ! k))"
    proof (intro allI impI)
      fix k assume k: "k < length rounds"
      show "current_failed (rounds ! k) = (if k = 0 then R else remaining_after (rounds ! (k - 1))) \<and>
        subseq (remaining_after (rounds ! k)) (current_failed (rounds ! k)) \<and>
        subseq (round_succeeded (rounds ! k)) (current_failed (rounds ! k))"
      proof (cases k)
        case 0
        then show ?thesis using round(5) sh by simp
      next
        case (Suc j)
        then have j: "j < length rounds'" using k round(5) by simp
        from IH(3) j have
          "current_failed (rounds' ! j) = (if j = 0 then R' else remaining_after (rounds' ! (j - 1)))"
          "subseq (remaining_after (rounds' ! j)) (current_failed (rounds' ! j))"
          "subseq (round_succeeded (rounds' ! j)) (current_failed (rounds' ! j))"
          by blast+
        then show ?thesis using Suc round(5) by (cases j) simp_all
      qed
    qed
    have d: "set final \<subseteq> set R" using IH(4) sub by blast
    have e: "\<forall>r \<in> set rounds. set (current_failed r) \<subseteq> set R \<and> set (remaining_after r) \<subseteq> set R"
      using IH(5) sub round(5) by auto
    from a b c d e show ?thesis by blast
  qed
qed

lemma retry_rounds_no_return:
  "retry_rounds e n R rs s = (final, rs', s', rounds) \<Longrightarrow> distinct R \<Longrightarrow>
   rounds = pre @ r # post \<Longrightarrow> idx \<in> set (round_succeeded r) \<Longrightarrow>
     idx \<notin> set (remaining_after r) \<and> idx \<notin> set final \<and>
     (\<forall>r' \<in> set post. idx \<notin> set (current_failed r') \<and> idx \<notin> set (remaining_after r'))"
proof (induction n arbitrary: R rs s rounds pre)
  case 0
  then show ?case by simp
next
  case (Suc n)
  from Suc.prems(1) show ?case
  proof (cases rule: retry_rounds_cases)
    case stop
    with Suc.prems(3) show ?thesis by simp
  next
    case (round m R' succ rs1 s1 rounds')
    then have m: "m = n" by simp
    note rec = round(4) [unfolded m]
    from retry_pass_shape [OF round(3)] Suc.prems(2) have sh:
      "subseq R' R" "set R' \<inter> set succ = {}" by auto
    have dR': "distinct R'" using sh(1) Suc.prems(2) by (rule subseq_keeps_distinct)
    from retry_rounds_history [OF rec] have within:
      "set final \<subseteq> set R'"
      "\<forall>r \<in> set rounds'. set (current_failed r) \<subseteq> set R' \<and> set (remaining_after r) \<subseteq> set R'"
      by blast+
    show ?thesis
    proof (cases pre)
      case Nil
      then have r: "r = \<lparr>current_failed = R, round_succeeded = succ, remaining_after = R'\<rparr>"
        and post: "post = rounds'"
        using Suc.prems(3) round(5) by simp_all
      have "idx \<in> set succ" using Suc.prems(4) r by simp
      then have "idx \<notin> set R'" using sh(2) by blast
      then show ?thesis using r post within by auto
    next
      case (Cons p pre')
      then have "rounds' = pre' @ r # post" using Suc.prems(3) round(5) by simp
      from Suc.IH [OF rec dR' this Suc.prems(4)] show ?thesis .
    qed
  qed
qed

subsection \<open>The failed list of a run has no duplicates\<close>

lemma collect_results_failed_shape:
  "\<exists>new. failed_indices (fst (collect_results e outs sc)) = failed_indices sc @ new \<and>
         subseq new (map fst outs)"
proof (induction e outs sc rule: collect_results.induct)
  case (1 e sc)
  then show ?case by simp
next
  case (2 e idx out rest sc)
  let ?s1 = "read_flag e (orch sc)"
  show ?case
  proof (cases "async_exception e (clock (orch sc)) = None \<and> \<not> shutdown_event ?s1")
    case False
    then have "failed_indices (fst (collect_results e ((idx, out) # rest) sc)) = failed_indices sc @ []"
      by (auto simp: Let_def split: option.splits)
    then show ?thesis by (metis list_emb_Nil)
  next
    case True
    let ?sc1 = "(case out of
                 Returned True \<Rightarrow> sc\<lparr>success_count := success_count sc + 1\<rparr>
               | Returned False \<Rightarrow> sc\<lparr>failed_indices := failed_indices sc @ [idx]\<rparr>
               | Raised \<Rightarrow> sc\<lparr>failed_indices := failed_indices sc @ [idx]\<rparr>)
              \<lparr>orch := ?s1, processed_count := processed_count sc + 1\<rparr>"
    have step: "collect_results e ((idx, out) # rest) sc = collect_results e rest ?sc1"
      using True by (simp add: Let_def)
    from "2.IH" [of ?s1] True obtain new where new:
      "failed_indices (fst (collect_results e rest ?sc1)) = failed_indices ?sc1 @ new"
      "subseq new (map fst rest)" by auto
    have "\<exists>pre. failed_indices ?sc1 = failed_indices sc @ pre \<and> subseq pre [idx]"
      by (cases out; cases "out = Returned True") (auto split: bool.splits)
    then obtain pre where pre: "failed_indices ?sc1 = failed_indices sc @ pre" "subseq pre [idx]"
      by blast
    have "subseq (pre @ new) ([idx] @ map fst rest)"
      using pre(2) new(2) by (rule list_emb_append_mono)
    then show ?thesis using step new(1) pre(1) by auto
  qed
qed

lemma run_batch_failed_shape:
  "\<exists>new. failed_indices (fst (run_batch e si nxt batch sc)) = failed_indices sc @ new \<and>
         subseq new batch"
proof -
  obtain sc' x where r: "run_batch e si nxt batch sc = (sc', x)"
    by (cases "run_batch e si nxt batch sc")
  from run_batch_counts [OF r]
    collect_results_failed_shape [of e "fst (run_workers e batch (orch sc))"
      "sc\<lparr>orch := snd (run_workers e batch (orch sc))\<rparr>"]
  show ?thesis by (simp add: r run_workers_indices)
qed

lemma make_batch_range:
  "distinct (make_batch cur bs total_subs) \<and>
   (\<forall>i \<in> set (make_batch cur bs total_subs). cur \<le> i \<and> i < cur + bs)"
  by (auto simp: make_batch_def)

lemma batch_loop_failed_distinct:
  "distinct (failed_indices sc) \<Longrightarrow> \<forall>i \<in> set (failed_indices sc). i < cur \<Longrightarrow>
     distinct (failed_indices (fst (batch_loop e total_subs bs si cur sc)))"
proof (induction e total_subs bs si cur sc rule: batch_loop.induct)
  case (1 e total_subs bs si cur sc)
  let ?sc0 = "sc\<lparr>orch := read_flag e (orch sc)\<rparr>"
  let ?b = "make_batch cur bs total_subs"
  let ?rb = "run_batch e si (cur + bs) ?b ?sc0"
  show ?case
  proof (cases "cur \<le> total_subs \<and> async_exception e (clock (orch sc)) = None \<and>
                \<not> shutdown_event (read_flag e (orch sc)) \<and> ?b \<noteq> []")
    case False
    then have "failed_indices (fst (batch_loop e total_subs bs si cur sc)) = failed_indices sc"
      by (subst batch_loop.simps) (auto split: option.splits)
    then show ?thesis using "1.prems"(1) by simp
  next
    case True
    obtain sc' x where rb: "?rb = (sc', x)" by (cases ?rb)
    from run_batch_failed_shape [of e si "cur + bs" ?b ?sc0] rb obtain new where new:
      "failed_indices sc' = failed_indices sc @ new" "subseq new ?b" by auto
    have sub: "set new \<subseteq> set ?b" using new(2) by (rule subseq_set)
    have dn: "distinct new" using new(2) make_batch_range [of cur bs total_subs]
      by (blast intro: subseq_keeps_distinct)
    have rng: "\<forall>i \<in> set new. cur \<le> i \<and> i < cur + bs"
      using sub make_batch_range [of cur bs total_subs] by blast
    have d': "distinct (failed_indices sc')"
      using "1.prems" dn rng new(1) by fastforce
    have bs: "0 < bs" using True by (auto simp: make_batch_def)
    have lt': "\<forall>i \<in> set (failed_indices sc'). i < cur + bs"
      using "1.prems"(2) rng new(1) bs by fastforce
    show ?thesis
    proof (cases x)
      case (Some ex)
      then have "fst (batch_loop e total_subs bs si cur sc) = sc'"
        using True rb by (subst batch_loop.simps) simp
      then show ?thesis using d' by simp
    next
      case None
      then have "batch_loop e total_subs bs si cur sc = batch_loop e total_subs bs si (cur + bs) sc'"
        using True rb by (subst batch_loop.simps) simp
      moreover have "distinct (failed_indices (fst (batch_loop e total_subs bs si (cur + bs) sc')))"
        using "1.IH" [of sc' x] True rb None d' lt' by simp
      ultimately show ?thesis by simp
    qed
  qed
qed

section \<open>Invariants of a run\<close>















section \<open>The executor and the pipeline\<close>

subsection \<open>The executor never raises\<close>




subsection \<open>The attempts of the execution stage\<close>

lemma execution_attempts_Suc:
  "execution_attempts (Suc n) ags k r =
     (let r1 = increment_attempt r;
          res = execute_sync (ags k) (ko_text r1) (rcontext r1) (target_langs r1);
          r2 = r1\<lparr>input_tokens := input_tokens r1 + fst (snd (snd res)),
                  output_tokens := output_tokens r1 + snd (snd (snd res))\<rparr>;
          r3 = mark_failure (ascii ''Translation attempt failed'') r2
      in if fst res then (mark_success (fst (snd res)) r2, [res])
         else (fst (execution_attempts n ags (Suc k) r3),
               res # snd (execution_attempts n ags (Suc k) r3)))"
  by (simp add: Let_def split: prod.splits)

declare execution_attempts.simps(2) [simp del]

lemma execution_attempts_fields:
  "ko_text (fst (execution_attempts n ags k r)) = ko_text r \<and>
   rcontext (fst (execution_attempts n ags k r)) = rcontext r \<and>
   target_langs (fst (execution_attempts n ags k r)) = target_langs r \<and>
   index (fst (execution_attempts n ags k r)) = index r"
  by (induction n arbitrary: k r)
     (simp_all add: execution_attempts_Suc Let_def mark_success_def mark_failure_def
        increment_attempt_def)




subsection \<open>The pipeline\<close>

lemma pipeline_handle_invalid:
  "\<not> is_valid r \<Longrightarrow>
     pipeline_handle m ags r =
       (mark_failure (ascii ''Invalid request: empty text or no target languages'') r, [])"
  by (simp add: pipeline_handle_def validation_stage_def)





lemma new_request_tokens [simp]:
  "input_tokens (new_request i t c l) = 0" "output_tokens (new_request i t c l) = 0"
  "attempt_count (new_request i t c l) = 0" "\<not> success (new_request i t c l)"
  "ko_text (new_request i t c l) = t" "rcontext (new_request i t c l) = c"
  "target_langs (new_request i t c l) = l"
  by (simp_all add: new_request_def)

subsection \<open>A worker over the pipeline\<close>

lemma read_flag_with_pipeline [simp]:
  "read_flag (with_pipeline m backend e) s = read_flag e s"
  by (simp add: read_flag_def with_pipeline_def)



subsection \<open>Token totals\<close>












section \<open>Errors of an item\<close>






section \<open>Convergence of the retry rounds\<close>

text \<open>
  Claim C4. For the retry rounds over an initial failed list without duplicates: no more
  rounds are executed than the budget allows (at most 2 with the default budget); each
  round starts from what the previous one left and leaves a sub-list of what it started
  from, so the remaining list never grows; and an index that succeeds in round \<open>k\<close> is
  absent from what round \<open>k\<close> leaves, from every later round, and from the final
  remaining list. The failed list that the batch loop hands to the retry has no
  duplicates.
\<close>

theorem retry_rounds_converge:
  "retry_rounds e (nat max_retries) failed 0 s = (final, rs, s', rounds) \<Longrightarrow>
     length rounds \<le> nat max_retries \<and>
     (max_retries = DEFAULT_RETRY_ROUNDS \<longrightarrow> length rounds \<le> 2) \<and>
     retry_failed_items e failed max_retries s = (rs, s') \<and>
     final = (if rounds = [] then failed else remaining_after (last rounds)) \<and>
     (\<forall>k < length rounds.
        current_failed (rounds ! k) = (if k = 0 then failed else remaining_after (rounds ! (k - 1))) \<and>
        subseq (remaining_after (rounds ! k)) (current_failed (rounds ! k))) \<and>
     (distinct failed \<longrightarrow>
        (\<forall>k < length rounds. \<forall>idx \<in> set (round_succeeded (rounds ! k)).
           idx \<notin> set (remaining_after (rounds ! k)) \<and> idx \<notin> set final \<and>
           (\<forall>j. k < j \<and> j < length rounds \<longrightarrow>
              idx \<notin> set (current_failed (rounds ! j)) \<and> idx \<notin> set (remaining_after (rounds ! j))))) \<and>
     distinct (failed_indices (fst (batch_loop e total_subs batch_size save_interval current_index
        \<lparr>orch = s0, processed_count = 0, success_count = 0, failed_indices = []\<rparr>)))"
proof -
  assume run: "retry_rounds e (nat max_retries) failed 0 s = (final, rs, s', rounds)"
  note h = retry_rounds_history [OF run]
  have a: "length rounds \<le> nat max_retries" using h by blast
  then have b: "max_retries = DEFAULT_RETRY_ROUNDS \<longrightarrow> length rounds \<le> 2"
    by (auto simp: DEFAULT_RETRY_ROUNDS_def)
  have c: "retry_failed_items e failed max_retries s = (rs, s')"
    using run by (simp add: retry_failed_items_def)
  have d: "final = (if rounds = [] then failed else remaining_after (last rounds))"
    using h by blast
  have e: "\<forall>k < length rounds.
        current_failed (rounds ! k) = (if k = 0 then failed else remaining_after (rounds ! (k - 1))) \<and>
        subseq (remaining_after (rounds ! k)) (current_failed (rounds ! k))"
    using h by blast
  have f: "distinct failed \<longrightarrow>
        (\<forall>k < length rounds. \<forall>idx \<in> set (round_succeeded (rounds ! k)).
           idx \<notin> set (remaining_after (rounds ! k)) \<and> idx \<notin> set final \<and>
           (\<forall>j. k < j \<and> j < length rounds \<longrightarrow>
              idx \<notin> set (current_failed (rounds ! j)) \<and> idx \<notin> set (remaining_after (rounds ! j))))"
  proof (intro impI allI ballI)
    fix k idx
    assume dist: "distinct failed" and k: "k < length rounds"
      and idx: "idx \<in> set (round_succeeded (rounds ! k))"
    have split: "rounds = take k rounds @ rounds ! k # drop (Suc k) rounds"
      using k by (rule id_take_nth_drop)
    note nr = retry_rounds_no_return [OF run dist split idx]
    have later: "\<forall>j. k < j \<and> j < length rounds \<longrightarrow>
              idx \<notin> set (current_failed (rounds ! j)) \<and> idx \<notin> set (remaining_after (rounds ! j))"
    proof (intro allI impI)
      fix j assume j: "k < j \<and> j < length rounds"
      then have "rounds ! j = drop (Suc k) rounds ! (j - Suc k)" by simp
      moreover have "j - Suc k < length (drop (Suc k) rounds)" using j by auto
      ultimately have "rounds ! j \<in> set (drop (Suc k) rounds)" by (metis nth_mem)
      then show "idx \<notin> set (current_failed (rounds ! j)) \<and> idx \<notin> set (remaining_after (rounds ! j))"
        using nr by blast
    qed
    show "idx \<notin> set (remaining_after (rounds ! k)) \<and> idx \<notin> set final \<and>
           (\<forall>j. k < j \<and> j < length rounds \<longrightarrow>
              idx \<notin> set (current_failed (rounds ! j)) \<and> idx \<notin> set (remaining_after (rounds ! j)))"
      using nr later by blast
  qed
  have g: "distinct (failed_indices (fst (batch_loop e total_subs batch_size save_interval
        current_index \<lparr>orch = s0, processed_count = 0, success_count = 0, failed_indices = []\<rparr>)))"
    by (rule batch_loop_failed_distinct) simp_all
  from a b c d e f g show ?thesis by blast
qed

theorem retry_rounds_converge_witness:
  "distinct [2, 3, 4 :: int] \<and>
   retry_rounds retry_env (nat 2) [2, 3, 4] 0 new_orchestrator =
     ([2], 2,
      \<lparr>total_input_tokens = 20, total_output_tokens = 10, shutdown_event = False, clock = 12,
       saved = [], printed = [],
       executor_calls = [(False, [], 0, 0), (False, [], 0, 0), (True, [(ascii ''en'', ascii ''Hello'')], 10, 5),
                         (False, [], 0, 0), (True, [(ascii ''en'', ascii ''Hello'')], 10, 5)]\<rparr>,
      [\<lparr>current_failed = [2, 3, 4], round_succeeded = [4], remaining_after = [2, 3]\<rparr>,
       \<lparr>current_failed = [2, 3], round_succeeded = [3], remaining_after = [2]\<rparr>]) \<and>
   fst (retry_failed_items retry_env [2, 3, 4] 2 new_orchestrator) = 2 \<and>
   (4 :: int) \<notin> set [2, 3] \<and> (4 :: int) \<notin> set [2] \<and> (3 :: int) \<notin> set [2]"
proof -
  have run: "retry_rounds retry_env (nat 2) [2, 3, 4] 0 new_orchestrator =
     ([2], 2,
      \<lparr>total_input_tokens = 20, total_output_tokens = 10, shutdown_event = False, clock = 12,
       saved = [], printed = [],
       executor_calls = [(False, [], 0, 0), (False, [], 0, 0), (True, [(ascii ''en'', ascii ''Hello'')], 10, 5),
                         (False, [], 0, 0), (True, [(ascii ''en'', ascii ''Hello'')], 10, 5)]\<rparr>,
      [\<lparr>current_failed = [2, 3, 4], round_succeeded = [4], remaining_after = [2, 3]\<rparr>,
       \<lparr>current_failed = [2, 3], round_succeeded = [3], remaining_after = [2]\<rparr>])"
    by code_simp
  from retry_rounds_converge [OF run] have "fst (retry_failed_items retry_env [2, 3, 4] 2 new_orchestrator) = 2"
    by simp
  with run show ?thesis by simp
qed

section \<open>Token accounting\<close>



section \<open>Shutdown of a run\<close>




section \<open>The periodic checkpoint\<close>

text \<open>
  Claim C7. The periodic save of a batch takes place exactly when the batch ends without
  exception and the processed count is a multiple of the save interval, and what it
  writes is \<open>current_index + batch_size\<close> with the token totals, whatever the outcomes
  of the items were. Over the whole loop every periodic entry is the start of a batch
  that was reached plus the batch size.
\<close>

theorem periodic_checkpoint_index:
  "saved (orch (fst (run_batch e save_interval (current_index + batch_size) batch sc))) =
     (if snd (run_batch e save_interval (current_index + batch_size) batch sc) = None \<and>
         int (processed_count (fst (run_batch e save_interval (current_index + batch_size) batch sc)))
           mod save_interval = 0
      then saved (orch sc) @
             [(current_index + batch_size,
               total_input_tokens (orch (fst (run_batch e save_interval (current_index + batch_size) batch sc))),
               total_output_tokens (orch (fst (run_batch e save_interval (current_index + batch_size) batch sc))))]
      else saved (orch sc)) \<and>
   (\<exists>new. saved (orch (fst (batch_loop e total_subs batch_size save_interval current_index sc))) =
            saved (orch sc) @ new \<and>
          (\<forall>en \<in> set new. \<exists>k::nat. fst en = (current_index + int k * batch_size) + batch_size \<and>
               current_index + int k * batch_size \<le> total_subs))"
  using run_batch_saved [of e save_interval "current_index + batch_size" batch sc]
    batch_loop_saved [of e total_subs batch_size save_interval current_index sc]
  by simp

text \<open>
  With 3 subtitles and batches of 2 the second periodic entry is 5, beyond the last
  index 3, and it is written the same when index 2 has failed.
\<close>

theorem periodic_checkpoint_index_witness:
  "saved (orch (fst (run_batch quiet_env 1 (3 + 2) [3] (start_sched new_orchestrator)))) = [(5, 10, 5)] \<and>
   saved (orch (fst (batch_loop quiet_env 3 2 1 1 (start_sched new_orchestrator)))) = [(3, 20, 10), (5, 30, 15)] \<and>
   saved (orch (fst (batch_loop retry_env 3 2 1 1 (start_sched new_orchestrator)))) = [(3, 10, 5), (5, 20, 10)] \<and>
   failed_indices (fst (batch_loop retry_env 3 2 1 1 (start_sched new_orchestrator))) = [2] \<and>
   (3 :: int) < 5"
proof -
  have q: "\<forall>t. async_exception quiet_env t = None" by (simp add: quiet_env_def)
  have t: "total_input_tokens (orch (fst (run_batch quiet_env 1 (3 + 2) [3] (start_sched new_orchestrator)))) = 10"
    "total_output_tokens (orch (fst (run_batch quiet_env 1 (3 + 2) [3] (start_sched new_orchestrator)))) = 5"
    by code_simp+
  have n: "snd (run_batch quiet_env 1 (3 + 2) [3] (start_sched new_orchestrator)) = None"
    using q by (simp add: run_batch_no_exception)
  have s0: "saved (orch (start_sched new_orchestrator)) = []" by (simp add: start_sched_def new_orchestrator_def)
  from periodic_checkpoint_index [of quiet_env 1 3 2 "[3]" "start_sched new_orchestrator"] t n s0
  have b: "saved (orch (fst (run_batch quiet_env 1 (3 + 2) [3] (start_sched new_orchestrator)))) = [(5, 10, 5)]"
    by simp
  have c: "saved (orch (fst (batch_loop quiet_env 3 2 1 1 (start_sched new_orchestrator)))) = [(3, 20, 10), (5, 30, 15)]"
    by code_simp
  have d: "saved (orch (fst (batch_loop retry_env 3 2 1 1 (start_sched new_orchestrator)))) = [(3, 10, 5), (5, 20, 10)]"
    by code_simp
  have e: "failed_indices (fst (batch_loop retry_env 3 2 1 1 (start_sched new_orchestrator))) = [2]"
    by code_simp
  from b c d e show ?thesis by simp
qed

section \<open>Validation of a request\<close>

text \<open>
  Claim C8. For a request whose source text is empty or whitespace-only, or whose target
  languages are empty: validation fails, the request is marked failed with a non-empty
  error message, the chain stops before execution (no executor result, whatever the
  backend would do), and the attempt count is unchanged, which is 0 for a new request.
\<close>

theorem invalid_request_stops_chain:
  "strip (ko_text r) = [] \<or> target_langs r = [] \<Longrightarrow>
     \<not> fst (validation_stage r) \<and>
     \<not> success (fst (pipeline_handle m ags r)) \<and>
     (\<exists>msg. error (fst (pipeline_handle m ags r)) = Some msg \<and> msg \<noteq> []) \<and>
     snd (pipeline_handle m ags r) = [] \<and>
     (\<forall>ags'. pipeline_handle m ags' r = pipeline_handle m ags r) \<and>
     attempt_count (fst (pipeline_handle m ags r)) = attempt_count r \<and>
     attempt_count (new_request i txt c langs) = 0"
proof -
  assume "strip (ko_text r) = [] \<or> target_langs r = []"
  then have nv: "\<not> is_valid r" by (auto simp: is_valid_def)
  then have "\<not> fst (validation_stage r)" by (simp add: validation_stage_def)
  moreover have "\<forall>ags'. pipeline_handle m ags' r =
      (mark_failure (ascii ''Invalid request: empty text or no target languages'') r, [])"
    using nv by (simp add: pipeline_handle_invalid)
  ultimately show ?thesis by (simp add: mark_failure_def new_request_def ascii_def)
qed

theorem invalid_request_stops_chain_witness:
  "strip (ascii ''   '') = [] \<and>
   fst (pipeline_handle 3 (flaky_backend 0) (new_request 1 (ascii ''   '') [] [ascii ''en''])) =
     (new_request 1 (ascii ''   '') [] [ascii ''en''])
       \<lparr>error := Some (ascii ''Invalid request: empty text or no target languages'')\<rparr> \<and>
   snd (pipeline_handle 3 (flaky_backend 0) (new_request 1 (ascii ''   '') [] [ascii ''en''])) = [] \<and>
   attempt_count (fst (pipeline_handle 3 (flaky_backend 0) (new_request 1 (ascii ''   '') [] [ascii ''en'']))) = 0 \<and>
   snd (pipeline_handle 3 (flaky_backend 0) (new_request 2 annyeong [] [])) = [] \<and>
   attempt_count (fst (pipeline_handle 3 (flaky_backend 0) (new_request 2 annyeong [] []))) = 0 \<and>
   attempt_count (fst (pipeline_handle 3 (flaky_backend 0) (new_request 3 annyeong [] [ascii ''en'']))) = 3"
proof -
  let ?r1 = "new_request 1 (ascii ''   '') [] [ascii ''en'']"
  let ?r2 = "new_request 2 annyeong [] []"
  have s: "strip (ascii ''   '') = []" by code_simp
  then have h1: "strip (ko_text ?r1) = [] \<or> target_langs ?r1 = []" by (simp add: new_request_def)
  have h2: "strip (ko_text ?r2) = [] \<or> target_langs ?r2 = []" by (simp add: new_request_def)
  have a0: "attempt_count ?r1 = 0" "attempt_count ?r2 = 0" by (simp_all add: new_request_def)
  have v: "fst (pipeline_handle 3 (flaky_backend 0) ?r1) =
             ?r1\<lparr>error := Some (ascii ''Invalid request: empty text or no target languages'')\<rparr>"
    by code_simp
  have ok: "attempt_count (fst (pipeline_handle 3 (flaky_backend 0) (new_request 3 annyeong [] [ascii ''en'']))) = 3"
    by code_simp
  from invalid_request_stops_chain [OF h1, of 3 "flaky_backend 0"]
    invalid_request_stops_chain [OF h2, of 3 "flaky_backend 0"] a0 s v ok
  show ?thesis by simp
qed

section \<open>A worker that starts after shutdown\<close>




end
